theory Spec2Isabelle
  imports Complex_Main "HOL-Library.Word"
begin

unbundle bit_operations_syntax

section \<open>Exceptions\<close>

text \<open>
  The Python exceptions the modelled functions can raise; \<open>EngineFailure\<close> stands
  for whatever the external extraction engine raises. A function that can raise returns
  \<open>error + 'a\<close>, with \<open>Inl\<close> for the exception.
\<close>

datatype error = IndexError | ValueError | ZeroDivisionError | StopIteration | EngineFailure

section \<open>CompactBoolList (utils.py)\<close>

text \<open>
  The object has three attributes: \<open>_data\<close> (a bytearray), \<open>_length\<close> and
  \<open>_index\<close> (the cursor that \<open>__next__\<close> advances; \<open>__iter__\<close> returns the
  object itself, so the cursor is part of the container's state). Methods that mutate
  the object return the updated object.
\<close>

record CompactBoolList =
  cbl_data :: "8 word list"
  cbl_length :: nat
  cbl_index :: nat

text \<open>
  Reading and writing one byte of a bytearray with a Python integer index: a negative
  index counts from the end, an index outside \<open>[-n, n)\<close> raises IndexError.
\<close>

definition bytes_get :: "8 word list \<Rightarrow> int \<Rightarrow> error + 8 word" where
  "bytes_get bs j =
     (let n = int (length bs); j' = (if j < 0 then j + n else j)
      in if 0 \<le> j' \<and> j' < n then Inr (bs ! nat j') else Inl IndexError)"

definition bytes_set :: "8 word list \<Rightarrow> int \<Rightarrow> 8 word \<Rightarrow> error + 8 word list" where
  "bytes_set bs j b =
     (let n = int (length bs); j' = (if j < 0 then j + n else j)
      in if 0 \<le> j' \<and> j' < n then Inr (bs[nat j' := b]) else Inl IndexError)"

text \<open>\<open>__init__\<close> before the loop over the iterable: the empty buffer.\<close>

definition empty_cbl :: CompactBoolList where
  "empty_cbl = \<lparr>cbl_data = [], cbl_length = 0, cbl_index = 0\<rparr>"

text \<open>\<open>__len__\<close>.\<close>

definition len_cbl :: "CompactBoolList \<Rightarrow> int" where
  "len_cbl c = int (cbl_length c)"

text \<open>\<open>_get_byte_and_bit_index\<close>: Python's \<open>//\<close> and \<open>%\<close> round as \<open>div\<close> and \<open>mod\<close> do.\<close>

definition get_byte_and_bit_index :: "CompactBoolList \<Rightarrow> int \<Rightarrow> int \<times> int" where
  "get_byte_and_bit_index c i =
     (let i' = (if i < 0 then i + int (cbl_length c) else i)
      in (i' div 8, i' mod 8))"

text \<open>
  \<open>_set_byte_and_bit_index\<close>: \<open>self._data[byte_idx] |= (1 << bit_idx)\<close> for a true
  value, \<open>self._data[byte_idx] &= ~(1 << bit_idx)\<close> otherwise. The bit index is a
  remainder modulo 8, so the mask fits a byte.
\<close>

definition set_byte_and_bit_index ::
  "CompactBoolList \<Rightarrow> int \<Rightarrow> bool \<Rightarrow> error + CompactBoolList" where
  "set_byte_and_bit_index c i v =
     (case get_byte_and_bit_index c i of (byte_idx, bit_idx) \<Rightarrow>
        (case bytes_get (cbl_data c) byte_idx of
           Inl e \<Rightarrow> Inl e
         | Inr b \<Rightarrow>
            (case bytes_set (cbl_data c) byte_idx
                    (if v then b OR push_bit (nat bit_idx) 1
                     else b AND NOT (push_bit (nat bit_idx) 1)) of
               Inl e \<Rightarrow> Inl e
             | Inr d \<Rightarrow> Inr (c\<lparr>cbl_data := d\<rparr>))))"

text \<open>\<open>__getitem__\<close> with an integer index (the slice branch builds a new object
  from single reads and is not modelled).\<close>

definition getitem :: "CompactBoolList \<Rightarrow> int \<Rightarrow> error + bool" where
  "getitem c i =
     (if \<not> (- int (cbl_length c) \<le> i \<and> i < int (cbl_length c)) then Inl IndexError
      else (case get_byte_and_bit_index c i of (byte_idx, bit_idx) \<Rightarrow>
        (case bytes_get (cbl_data c) byte_idx of
           Inl e \<Rightarrow> Inl e
         | Inr b \<Rightarrow> Inr (b AND push_bit (nat bit_idx) 1 \<noteq> 0))))"

text \<open>\<open>__setitem__\<close>.\<close>

definition setitem :: "CompactBoolList \<Rightarrow> int \<Rightarrow> bool \<Rightarrow> error + CompactBoolList" where
  "setitem c i v =
     (if \<not> (- int (cbl_length c) \<le> i \<and> i < int (cbl_length c)) then Inl IndexError
      else set_byte_and_bit_index c i v)"

text \<open>
  \<open>__next__\<close>: the value read at the cursor, or the exception, and the object after
  the call. On exhaustion the cursor is reset and StopIteration is raised.
\<close>

definition next_cbl :: "CompactBoolList \<Rightarrow> (error + bool) \<times> CompactBoolList" where
  "next_cbl c =
     (if cbl_index c < cbl_length c then
        (case getitem c (int (cbl_index c)) of
           Inl e \<Rightarrow> (Inl e, c)
         | Inr v \<Rightarrow> (Inr v, c\<lparr>cbl_index := cbl_index c + 1\<rparr>))
      else (Inl StopIteration, c\<lparr>cbl_index := 0\<rparr>))"

text \<open>\<open>append\<close>.\<close>

definition append_cbl :: "CompactBoolList \<Rightarrow> bool \<Rightarrow> error + CompactBoolList" where
  "append_cbl c v =
     (let c1 = (if cbl_length c mod 8 = 0 then c\<lparr>cbl_data := cbl_data c @ [0]\<rparr> else c)
      in case set_byte_and_bit_index c1 (int (cbl_length c)) v of
           Inl e \<Rightarrow> Inl e
         | Inr c2 \<Rightarrow> Inr (c2\<lparr>cbl_length := cbl_length c + 1\<rparr>))"

text \<open>\<open>__init__\<close>: the loop \<open>for item in iterable: self.append(item)\<close>, and the
  constructor itself (\<open>None\<close> for no iterable).\<close>

fun init_loop :: "CompactBoolList \<Rightarrow> bool list \<Rightarrow> error + CompactBoolList" where
  "init_loop c [] = Inr c"
| "init_loop c (x # xs) =
     (case append_cbl c x of Inl e \<Rightarrow> Inl e | Inr c' \<Rightarrow> init_loop c' xs)"

definition init_cbl :: "bool list option \<Rightarrow> error + CompactBoolList" where
  "init_cbl iterable = (case iterable of None \<Rightarrow> Inr empty_cbl | Some xs \<Rightarrow> init_loop empty_cbl xs)"

text \<open>
  \<open>to_list\<close> is \<open>list(self)\<close>: \<open>iter(self)\<close> is the object itself, and \<open>list\<close>
  calls \<open>__next__\<close> until it raises StopIteration; any other exception propagates.
  The result comes with the object as the traversal leaves it.
\<close>

function to_list_loop ::
  "CompactBoolList \<Rightarrow> bool list \<Rightarrow> (error + bool list) \<times> CompactBoolList" where
  "to_list_loop c acc =
     (case next_cbl c of
        (Inr v, c') \<Rightarrow> to_list_loop c' (acc @ [v])
      | (Inl e, c') \<Rightarrow> (if e = StopIteration then (Inr acc, c') else (Inl e, c')))"
  by pat_completeness auto
termination
  apply (relation "measure (\<lambda>(c, acc). cbl_length c - cbl_index c)")
   apply simp
  apply (auto simp: next_cbl_def split: if_splits sum.splits)
  done

definition to_list :: "CompactBoolList \<Rightarrow> (error + bool list) \<times> CompactBoolList" where
  "to_list c = to_list_loop c []"

section \<open>Number theory (utils.py)\<close>

text \<open>
  \<open>round(sqrt(n))\<close>: \<open>math.sqrt\<close> raises ValueError on a negative argument; on a
  non-negative integer the model returns the integer nearest to the real square root,
  computed on integers as the least \<open>m\<close> with \<open>n \<le> m * m + m\<close> (lemma
  \<open>round_sqrt_real\<close> below relates it to the real \<open>round (sqrt n)\<close>). The model
  is exact arithmetic: the rounding of IEEE doubles for very large \<open>n\<close> is not part
  of it.
\<close>

function round_sqrt_from :: "nat \<Rightarrow> nat \<Rightarrow> nat" where
  "round_sqrt_from n m = (if m * m + m < n then round_sqrt_from n (m + 1) else m)"
  by pat_completeness auto
termination
proof (relation "measure (\<lambda>(n, m). n - m)")
  show "wf (measure (\<lambda>(n, m). n - m))" by simp
next
  fix n m :: nat
  assume "m * m + m < n"
  then have "m < n" by (meson add_lessD1 le_add2 le_less_trans)
  then show "((n, m + 1), (n, m)) \<in> measure (\<lambda>(n, m). n - m)" by simp
qed

declare round_sqrt_from.simps [simp del]

definition round_sqrt :: "int \<Rightarrow> error + int" where
  "round_sqrt n = (if n < 0 then Inl ValueError else Inr (int (round_sqrt_from (nat n) 0)))"

text \<open>
  \<open>is_prime\<close>: the candidates \<open>range(2, round(sqrt(n)) + 1)\<close> and the loop over
  them, which returns False at the first divisor and True when there is none. The
  candidates are at least 2, so \<open>%\<close> never divides by zero.
\<close>

definition trial_range :: "int \<Rightarrow> error + int list" where
  "trial_range n = (case round_sqrt n of Inl e \<Rightarrow> Inl e | Inr r \<Rightarrow> Inr [2..r])"

definition is_prime :: "int \<Rightarrow> error + bool" where
  "is_prime n =
     (case trial_range n of
        Inl e \<Rightarrow> Inl e
      | Inr candidates \<Rightarrow> Inr (list_all (\<lambda>i. n mod i \<noteq> 0) candidates))"

text \<open>
  \<open>prime_facto\<close>. The while loop, on the state \<open>(n, i, factors)\<close>; entered with
  \<open>i = 2\<close> it ends, from other states it need not (\<open>i = 1\<close> divides every \<open>n\<close>
  for ever), so the loop is a partial function and its result an option.
\<close>

partial_function (option) facto_loop ::
  "int \<Rightarrow> int \<Rightarrow> int list \<Rightarrow> (error + int \<times> int list) option" where
  "facto_loop n i factors =
     (case round_sqrt n of
        Inl e \<Rightarrow> Some (Inl e)
      | Inr r \<Rightarrow>
          if i \<le> r + 1 then
            (if i = 0 then Some (Inl ZeroDivisionError)
             else if n mod i = 0 then facto_loop (n div i) i (factors @ [i])
             else facto_loop n (i + 1) factors)
          else Some (Inr (n, factors)))"

declare facto_loop.simps [code]

text \<open>
  The second loop of \<open>prime_facto\<close>, over \<open>factors[1:]\<close> with the previous
  element: it groups equal neighbours into \<open>factors2\<close> and \<open>powers\<close>; \<open>p\<close>
  is the index of the last power.
\<close>

fun group_loop ::
  "int \<Rightarrow> int list \<Rightarrow> int list \<Rightarrow> int list \<Rightarrow> nat \<Rightarrow> int list \<times> int list" where
  "group_loop prev [] factors2 powers p = (factors2, powers)"
| "group_loop prev (f # fs) factors2 powers p =
     (if f = prev then group_loop f fs factors2 (powers[p := powers ! p + 1]) p
      else group_loop f fs (factors2 @ [f]) (powers @ [1]) (p + 1))"

definition prime_facto :: "int \<Rightarrow> (error + int list \<times> int list) option" where
  "prime_facto n =
     (case facto_loop n 2 [] of
        None \<Rightarrow> None
      | Some (Inl e) \<Rightarrow> Some (Inl e)
      | Some (Inr (n', factors)) \<Rightarrow>
          (case (if n' \<noteq> 1 then factors @ [n'] else factors) of
             [] \<Rightarrow> Some (Inl IndexError)
           | f0 # rest \<Rightarrow> Some (Inr (group_loop f0 rest [f0] [1] 0))))"

text \<open>
  \<open>previous_prime\<close> and \<open>next_prime\<close>. The outer \<open>while not stop\<close> runs its body
  once; the inner loop steps \<open>k\<close> by 2 until \<open>is_prime(k + 1)\<close>. The upward search
  has no bound, so both loops are partial functions.
\<close>

partial_function (option) previous_prime_loop :: "int \<Rightarrow> (error + int) option" where
  "previous_prime_loop k =
     (case is_prime (k + 1) of
        Inl e \<Rightarrow> Some (Inl e)
      | Inr b \<Rightarrow> if \<not> b then previous_prime_loop (k - 2) else Some (Inr k))"

declare previous_prime_loop.simps [code]

partial_function (option) next_prime_loop :: "int \<Rightarrow> (error + int) option" where
  "next_prime_loop k =
     (case is_prime (k + 1) of
        Inl e \<Rightarrow> Some (Inl e)
      | Inr b \<Rightarrow> if \<not> b then next_prime_loop (k + 2) else Some (Inr k))"

declare next_prime_loop.simps [code]

definition previous_prime :: "int \<Rightarrow> (error + int) option" where
  "previous_prime k0 =
     (let k = k0 - 1; k = (if k mod 2 \<noteq> 0 then k - 1 else k)
      in case previous_prime_loop k of
           None \<Rightarrow> None
         | Some (Inl e) \<Rightarrow> Some (Inl e)
         | Some (Inr k') \<Rightarrow> Some (Inr (k' + 1)))"

definition next_prime :: "int \<Rightarrow> (error + int) option" where
  "next_prime k0 =
     (let k = k0 - 1; k = (if k mod 2 \<noteq> 0 then k + 1 else k)
      in case next_prime_loop k of
           None \<Rightarrow> None
         | Some (Inl e) \<Rightarrow> Some (Inl e)
         | Some (Inr k') \<Rightarrow> Some (Inr (k' + 1)))"











section \<open>Von Neumann extractor (utils.py)\<close>

text \<open>
  \<open>bits[::2]\<close> is \<open>slice_step2 bits\<close> and \<open>bits[1::2]\<close> is
  \<open>slice_step2 (drop 1 bits)\<close>; \<open>zip\<close> stops with the shorter of the two.
\<close>

fun slice_step2 :: "'a list \<Rightarrow> 'a list" where
  "slice_step2 [] = []"
| "slice_step2 [x] = [x]"
| "slice_step2 (x # y # xs) = x # slice_step2 xs"

definition von_neumann :: "int list \<Rightarrow> int list" where
  "von_neumann bits =
     map fst (filter (\<lambda>(x, y). x \<noteq> y) (zip (slice_step2 bits) (slice_step2 (drop 1 bits))))"

section \<open>Trevisan orchestrator (trevisan.py)\<close>

text \<open>
  The object holds the configuration and the engine, both made by the external module
  \<open>_cryptomite\<close>. Of the configuration \<open>extract\<close> reads only \<open>m\<close>; the engine
  is a state of some type \<open>'e\<close>, and its two operations \<open>load_source\<close> and
  \<open>extract_bit\<close> are parameters of the model: each takes the engine state and returns
  the new one, or raises.
\<close>

record 'e Trevisan =
  config_m :: int
  ext :: 'e

type_synonym 'e load_source_op = "'e \<Rightarrow> CompactBoolList \<Rightarrow> CompactBoolList \<Rightarrow> error + 'e"
type_synonym 'e extract_bit_op = "'e \<Rightarrow> int \<Rightarrow> error + bool \<times> 'e"

text \<open>\<open>range(m)\<close>.\<close>

definition range_py :: "int \<Rightarrow> int list" where
  "range_py m = [0..m - 1]"

text \<open>
  The loop \<open>for i in range(m): bit = self.ext.extract_bit(i); bits.append(bit)\<close>,
  and \<open>Trevisan.extract\<close> (named \<open>extract_trevisan\<close>: the bare name is a command
  of the proof assistant).
\<close>

fun extract_loop ::
  "'e extract_bit_op \<Rightarrow> int list \<Rightarrow> 'e \<Rightarrow> CompactBoolList \<Rightarrow> error + CompactBoolList \<times> 'e" where
  "extract_loop extract_bit [] e bits = Inr (bits, e)"
| "extract_loop extract_bit (i # rest) e bits =
     (case extract_bit e i of
        Inl err \<Rightarrow> Inl err
      | Inr (b, e') \<Rightarrow>
          (case append_cbl bits b of
             Inl err \<Rightarrow> Inl err
           | Inr bits' \<Rightarrow> extract_loop extract_bit rest e' bits'))"

definition extract_trevisan ::
  "'e load_source_op \<Rightarrow> 'e extract_bit_op \<Rightarrow> 'e Trevisan \<Rightarrow> CompactBoolList \<Rightarrow> CompactBoolList
     \<Rightarrow> error + CompactBoolList \<times> 'e Trevisan" where
  "extract_trevisan load_source extract_bit self input1 input2 =
     (case load_source (ext self) input1 input2 of
        Inl err \<Rightarrow> Inl err
      | Inr e1 \<Rightarrow>
          (case init_cbl None of
             Inl err \<Rightarrow> Inl err
           | Inr bits \<Rightarrow>
               (case extract_loop extract_bit (range_py (config_m self)) e1 bits of
                  Inl err \<Rightarrow> Inl err
                | Inr (bits', e2) \<Rightarrow> Inr (bits', self\<lparr>ext := e2\<rparr>))))"

section \<open>Specification-level notions\<close>

text \<open>
  The data model of the buffer: bit \<open>i\<close> lives in byte \<open>i div 8\<close> at offset
  \<open>i mod 8\<close>; the logical content is the first \<open>_length\<close> bits; the storage
  invariant relates the two sizes.
\<close>

definition bit_at :: "CompactBoolList \<Rightarrow> nat \<Rightarrow> bool" where
  "bit_at c i = bit (cbl_data c ! (i div 8)) (i mod 8)"

definition bits_of :: "CompactBoolList \<Rightarrow> bool list" where
  "bits_of c = map (bit_at c) [0..<cbl_length c]"

definition cbl_inv :: "CompactBoolList \<Rightarrow> bool" where
  "cbl_inv c \<longleftrightarrow> length (cbl_data c) = (cbl_length c + 7) div 8"

text \<open>The position a Python index denotes: a negative index counts from the end.\<close>

definition resolve_index :: "CompactBoolList \<Rightarrow> int \<Rightarrow> nat" where
  "resolve_index c i = nat (if i < 0 then i + int (cbl_length c) else i)"

text \<open>
  The buffers a caller can hold: made by the constructor, and changed by \<open>append\<close>,
  by index assignment and by \<open>__next__\<close>.
\<close>

inductive reachable :: "CompactBoolList \<Rightarrow> bool" where
  constructed: "init_cbl iterable = Inr c \<Longrightarrow> reachable c"
| appended: "reachable c \<Longrightarrow> append_cbl c v = Inr c' \<Longrightarrow> reachable c'"
| assigned: "reachable c \<Longrightarrow> setitem c i v = Inr c' \<Longrightarrow> reachable c'"
| advanced: "reachable c \<Longrightarrow> next_cbl c = (r, c') \<Longrightarrow> reachable c'"

text \<open>Primes, and the multiplicative order of 2 modulo \<open>p\<close>.\<close>

definition prime_nat :: "nat \<Rightarrow> bool" where
  "prime_nat p \<longleftrightarrow> 1 < p \<and> (\<forall>d. d dvd p \<longrightarrow> d = 1 \<or> d = p)"

definition prime_number :: "int \<Rightarrow> bool" where
  "prime_number p \<longleftrightarrow> 1 < p \<and> (\<forall>d. 1 < d \<and> d < p \<longrightarrow> \<not> d dvd p)"



text \<open>
  The Von Neumann extractor as the specification words it: the pairs
  \<open>(bits[2i], bits[2i+1])\<close> for \<open>i\<close> below \<open>length div 2\<close>, the first bit of
  every pair whose bits differ.
\<close>

definition von_neumann_spec :: "int list \<Rightarrow> int list" where
  "von_neumann_spec bits =
     map (\<lambda>i. bits ! (2 * i))
       (filter (\<lambda>i. bits ! (2 * i) \<noteq> bits ! (2 * i + 1)) [0..<length bits div 2])"

text \<open>
  A recording engine, for stating which calls \<open>extract\<close> makes: it wraps any engine,
  and keeps beside the engine's state the list of the indices \<open>extract_bit\<close> was
  called with and the bits it answered, in call order.
\<close>

definition logged_load :: "'e load_source_op \<Rightarrow> ('e \<times> (int \<times> bool) list) load_source_op" where
  "logged_load load_source s input1 input2 =
     (case load_source (fst s) input1 input2 of
        Inl err \<Rightarrow> Inl err
      | Inr e' \<Rightarrow> Inr (e', snd s))"

definition logged :: "'e extract_bit_op \<Rightarrow> ('e \<times> (int \<times> bool) list) extract_bit_op" where
  "logged extract_bit s i =
     (case extract_bit (fst s) i of
        Inl err \<Rightarrow> Inl err
      | Inr (b, e') \<Rightarrow> Inr (b, (e', snd s @ [(i, b)])))"

section \<open>Properties of CompactBoolList\<close>

subsection \<open>Storage arithmetic and single bits\<close>

lemma ceil8: "((L::nat) + 7) div 8 = (if L mod 8 = 0 then L div 8 else L div 8 + 1)"
proof -
  obtain q r where L: "L = 8 * q + r" and r: "r < 8"
    by (metis mod_less_divisor mult_div_mod_eq zero_less_numeral)
  have "(8 * q + r + 7) div 8 = q + (r + 7) div 8"
    by (simp add: add.assoc)
  moreover have "(r + 7) div 8 = (if r = 0 then 0 else 1)"
    using r by (auto simp: div_eq_0_iff Suc_le_eq intro!: div_nat_eqI)
  ultimately show ?thesis using r by (simp add: L)
qed

lemma div8_less_ceil8:
  assumes "i < (L::nat)"
  shows "i div 8 < (L + 7) div 8"
proof (cases "L mod 8 = 0")
  case True
  then have "8 dvd L" by (simp add: dvd_eq_mod_eq_0)
  then obtain q where q: "L = 8 * q" by (rule dvdE)
  with assms have "i div 8 < q" by (simp add: less_mult_imp_div_less mult.commute)
  with q show ?thesis by (simp add: ceil8)
next
  case False
  have "i div 8 \<le> L div 8" using assms by (simp add: div_le_mono)
  with False show ?thesis by (simp add: ceil8)
qed

lemma div8_less_Suc_ceil8: "(L::nat) div 8 < (if L mod 8 = 0 then (L + 7) div 8 + 1 else (L + 7) div 8)"
  by (simp add: ceil8)

lemma ceil8_Suc: "((L::nat) + 1 + 7) div 8 = (if L mod 8 = 0 then (L + 7) div 8 + 1 else (L + 7) div 8)"
proof -
  have "L + 1 + 7 = L + 8" by simp
  then have "(L + 1 + 7) div 8 = L div 8 + 1" by simp
  then show ?thesis by (simp add: ceil8)
qed

lemma byte_or_mask: "bit ((w::8 word) OR 2 ^ n) m \<longleftrightarrow> bit w m \<or> (m = n \<and> n < 8)"
  by (auto simp: bit_simps)

lemma byte_and_not_mask: "bit ((w::8 word) AND NOT (2 ^ n)) m \<longleftrightarrow> bit w m \<and> m \<noteq> n"
  by (auto simp: bit_simps dest: bit_imp_le_length)

lemma byte_test_mask: "((w::8 word) AND 2 ^ n \<noteq> 0) \<longleftrightarrow> bit w n"
  by (simp add: and_exp_eq_0_iff_not_bit)

lemma byte_index_nat: "get_byte_and_bit_index c (int i) = (int (i div 8), int (i mod 8))"
  by (simp add: get_byte_and_bit_index_def Let_def zdiv_int zmod_int)

lemma bytes_get_nat: "j < length bs \<Longrightarrow> bytes_get bs (int j) = Inr (bs ! j)"
  by (simp add: bytes_get_def)

lemma bytes_set_nat: "j < length bs \<Longrightarrow> bytes_set bs (int j) b = Inr (bs[j := b])"
  by (simp add: bytes_set_def)

lemma inv_byte_in_range: "cbl_inv c \<Longrightarrow> i < cbl_length c \<Longrightarrow> i div 8 < length (cbl_data c)"
  by (simp add: cbl_inv_def div8_less_ceil8)

lemma getitem_nat:
  assumes "cbl_inv c" and "i < cbl_length c"
  shows "getitem c (int i) = Inr (bit_at c i)"
  using assms inv_byte_in_range [OF assms]
  by (simp add: getitem_def byte_index_nat bytes_get_nat byte_test_mask bit_at_def)

lemma set_byte_nat:
  assumes "i div 8 < length (cbl_data c)"
  shows "set_byte_and_bit_index c (int i) v =
           Inr (c\<lparr>cbl_data := (cbl_data c)[i div 8 :=
                  (if v then cbl_data c ! (i div 8) OR push_bit (i mod 8) 1
                   else cbl_data c ! (i div 8) AND NOT (push_bit (i mod 8) 1))]\<rparr>)"
  using assms
  by (simp add: set_byte_and_bit_index_def byte_index_nat bytes_get_nat bytes_set_nat)

lemma bit_at_set_byte:
  assumes "i div 8 < length (cbl_data c)"
    and "set_byte_and_bit_index c (int i) v = Inr c'"
  shows "bit_at c' j = (if j = i then v else bit_at c j)"
proof -
  have c': "c' = c\<lparr>cbl_data := (cbl_data c)[i div 8 :=
                  (if v then cbl_data c ! (i div 8) OR push_bit (i mod 8) 1
                   else cbl_data c ! (i div 8) AND NOT (push_bit (i mod 8) 1))]\<rparr>"
    using assms set_byte_nat [OF assms(1), of v] by simp
  have split: "j = i \<longleftrightarrow> j div 8 = i div 8 \<and> j mod 8 = i mod 8"
    by (metis div_mult_mod_eq)
  show ?thesis
  proof (cases "j div 8 = i div 8")
    case True
    then show ?thesis
      using assms(1) split
      by (simp add: c' bit_at_def byte_or_mask byte_and_not_mask)
  next
    case False
    then show ?thesis
      using split by (simp add: c' bit_at_def)
  qed
qed


lemma set_byte_fields:
  assumes "i div 8 < length (cbl_data c)"
    and "set_byte_and_bit_index c (int i) v = Inr c'"
  shows "cbl_length c' = cbl_length c" and "cbl_index c' = cbl_index c"
    and "length (cbl_data c') = length (cbl_data c)"
  using assms(2) set_byte_nat [OF assms(1), of v] by auto

lemma append_cbl_ok:
  assumes "cbl_inv c"
  obtains c' where "append_cbl c v = Inr c'"
    and "cbl_inv c'"
    and "cbl_length c' = cbl_length c + 1"
    and "cbl_index c' = cbl_index c"
    and "length (cbl_data c') =
           (if cbl_length c mod 8 = 0 then length (cbl_data c) + 1 else length (cbl_data c))"
    and "\<And>j. j \<le> cbl_length c \<Longrightarrow> bit_at c' j = (if j = cbl_length c then v else bit_at c j)"
proof -
  define c1 where "c1 = (if cbl_length c mod 8 = 0 then c\<lparr>cbl_data := cbl_data c @ [0]\<rparr> else c)"
  have len1: "length (cbl_data c1) =
           (if cbl_length c mod 8 = 0 then length (cbl_data c) + 1 else length (cbl_data c))"
    by (simp add: c1_def)
  have fields1: "cbl_length c1 = cbl_length c" "cbl_index c1 = cbl_index c"
    by (simp_all add: c1_def)
  have room: "cbl_length c div 8 < length (cbl_data c1)"
    using assms by (simp add: len1 cbl_inv_def ceil8)
  obtain c2 where c2: "set_byte_and_bit_index c1 (int (cbl_length c)) v = Inr c2"
    using set_byte_nat [OF room] by blast
  have old: "bit_at c1 j = bit_at c j" if "j < cbl_length c" for j
  proof -
    have "j div 8 < length (cbl_data c)"
      using assms that by (rule inv_byte_in_range)
    then show ?thesis by (simp add: c1_def bit_at_def nth_append)
  qed
  let ?c' = "c2\<lparr>cbl_length := cbl_length c + 1\<rparr>"
  have app: "append_cbl c v = Inr ?c'"
    using c2 by (simp add: append_cbl_def c1_def Let_def)
  have f2: "cbl_length c2 = cbl_length c" "cbl_index c2 = cbl_index c"
    "length (cbl_data c2) = length (cbl_data c1)"
    using set_byte_fields [OF room c2] fields1 by simp_all
  have inv': "cbl_inv ?c'"
    using assms f2(3) len1 by (simp add: cbl_inv_def ceil8_Suc [simplified])
  have bits: "bit_at ?c' j = (if j = cbl_length c then v else bit_at c j)"
    if "j \<le> cbl_length c" for j
  proof -
    have "bit_at ?c' j = bit_at c2 j" by (simp add: bit_at_def)
    also have "\<dots> = (if j = cbl_length c then v else bit_at c1 j)"
      by (rule bit_at_set_byte [OF room c2])
    also have "\<dots> = (if j = cbl_length c then v else bit_at c j)"
      using that old [of j] by auto
    finally show ?thesis .
  qed
  show thesis
    using that [OF app inv' _ _ _ bits] f2 len1 by simp
qed

lemma bits_of_append:
  assumes "cbl_length c' = cbl_length c + 1"
    and "\<And>j. j \<le> cbl_length c \<Longrightarrow> bit_at c' j = (if j = cbl_length c then v else bit_at c j)"
  shows "bits_of c' = bits_of c @ [v]"
  using assms by (simp add: bits_of_def)

lemma init_loop_ok:
  assumes "cbl_inv c"
  shows "\<exists>c'. init_loop c xs = Inr c' \<and> cbl_inv c' \<and> cbl_index c' = cbl_index c
            \<and> cbl_length c' = cbl_length c + length xs \<and> bits_of c' = bits_of c @ xs"
  using assms
proof (induction xs arbitrary: c)
  case Nil
  then show ?case by simp
next
  case (Cons x xs)
  obtain c1 where c1: "append_cbl c x = Inr c1" "cbl_inv c1"
    "cbl_length c1 = cbl_length c + 1" "cbl_index c1 = cbl_index c"
    "\<And>j. j \<le> cbl_length c \<Longrightarrow> bit_at c1 j = (if j = cbl_length c then x else bit_at c j)"
    using append_cbl_ok [OF Cons.prems, of x] by metis
  have b1: "bits_of c1 = bits_of c @ [x]"
    using c1(3) c1(5) by (rule bits_of_append)
  from Cons.IH [OF c1(2)] obtain c' where "init_loop c1 xs = Inr c'" "cbl_inv c'"
    "cbl_index c' = cbl_index c1" "cbl_length c' = cbl_length c1 + length xs"
    "bits_of c' = bits_of c1 @ xs" by blast
  then show ?case using c1(1,3,4) b1 by simp
qed

lemma empty_cbl_inv: "cbl_inv empty_cbl" and empty_cbl_bits: "bits_of empty_cbl = []"
  by (simp_all add: cbl_inv_def empty_cbl_def bits_of_def)

lemma to_list_loop_ok:
  assumes "cbl_inv c" and "cbl_index c \<le> cbl_length c"
  shows "to_list_loop c acc = (Inr (acc @ drop (cbl_index c) (bits_of c)), c\<lparr>cbl_index := 0\<rparr>)"
  using assms
proof (induction "cbl_length c - cbl_index c" arbitrary: c acc)
  case 0
  then have "next_cbl c = (Inl StopIteration, c\<lparr>cbl_index := 0\<rparr>)"
    by (simp add: next_cbl_def)
  moreover have "drop (cbl_index c) (bits_of c) = []"
    using 0 by (simp add: bits_of_def)
  ultimately show ?case by (simp add: to_list_loop.simps [of c])
next
  case (Suc n)
  let ?i = "cbl_index c"
  let ?c' = "c\<lparr>cbl_index := ?i + 1\<rparr>"
  have lt: "?i < cbl_length c" using Suc.hyps(2) by simp
  have nx: "next_cbl c = (Inr (bit_at c ?i), ?c')"
    using lt getitem_nat [OF Suc.prems(1) lt] by (simp add: next_cbl_def)
  have inv': "cbl_inv ?c'" using Suc.prems(1) by (simp add: cbl_inv_def)
  have same: "bits_of ?c' = bits_of c" by (simp add: bits_of_def bit_at_def)
  have "to_list_loop ?c' (acc @ [bit_at c ?i]) =
          (Inr ((acc @ [bit_at c ?i]) @ drop (cbl_index ?c') (bits_of ?c')), ?c'\<lparr>cbl_index := 0\<rparr>)"
    using Suc.hyps(2) lt by (intro Suc.hyps(1) inv') simp_all
  moreover have "drop ?i (bits_of c) = bit_at c ?i # drop (?i + 1) (bits_of c)"
    using lt by (simp add: bits_of_def Cons_nth_drop_Suc [symmetric])
  ultimately show ?case
    using nx same by (simp add: to_list_loop.simps [of c])
qed

subsection \<open>Index resolution\<close>

lemma byte_index_resolve:
  assumes "- int (cbl_length c) \<le> i" and "i < int (cbl_length c)"
  shows "get_byte_and_bit_index c i = get_byte_and_bit_index c (int (resolve_index c i))"
    and "resolve_index c i < cbl_length c"
  using assms by (auto simp: get_byte_and_bit_index_def resolve_index_def Let_def)

lemma getitem_in_range:
  assumes "cbl_inv c" and "- int (cbl_length c) \<le> i" and "i < int (cbl_length c)"
  shows "getitem c i = Inr (bit_at c (resolve_index c i))"
proof -
  have "getitem c i = getitem c (int (resolve_index c i))"
    using assms(2,3) byte_index_resolve [OF assms(2,3)] by (simp add: getitem_def)
  then show ?thesis
    using getitem_nat [OF assms(1) byte_index_resolve(2) [OF assms(2,3)]] by simp
qed

lemma getitem_out_of_range:
  "\<not> (- int (cbl_length c) \<le> i \<and> i < int (cbl_length c)) \<Longrightarrow> getitem c i = Inl IndexError"
  by (simp add: getitem_def)

lemma setitem_out_of_range:
  "\<not> (- int (cbl_length c) \<le> i \<and> i < int (cbl_length c)) \<Longrightarrow> setitem c i v = Inl IndexError"
  by (simp add: setitem_def)

lemma setitem_in_range:
  assumes "cbl_inv c" and "- int (cbl_length c) \<le> i" and "i < int (cbl_length c)"
  obtains c' where "setitem c i v = Inr c'"
    and "cbl_length c' = cbl_length c" and "cbl_index c' = cbl_index c"
    and "length (cbl_data c') = length (cbl_data c)"
    and "\<And>k. bit_at c' k = (if k = resolve_index c i then v else bit_at c k)"
proof -
  let ?r = "resolve_index c i"
  have r: "?r < cbl_length c" using assms(2,3) by (rule byte_index_resolve(2))
  have room: "?r div 8 < length (cbl_data c)"
    using assms(1) r by (rule inv_byte_in_range)
  have eq: "setitem c i v = set_byte_and_bit_index c (int ?r) v"
    using assms(2,3) byte_index_resolve(1) [OF assms(2,3)]
    by (simp add: setitem_def set_byte_and_bit_index_def)
  obtain c' where c': "set_byte_and_bit_index c (int ?r) v = Inr c'"
    using set_byte_nat [OF room] by blast
  show thesis
    using that [of c'] eq c' set_byte_fields [OF room c'] bit_at_set_byte [OF room c']
    by simp
qed

subsection \<open>The storage invariant on reachable buffers\<close>

lemma setitem_inv:
  assumes "cbl_inv c" and "setitem c i v = Inr c'"
  shows "cbl_inv c'"
proof (cases "- int (cbl_length c) \<le> i \<and> i < int (cbl_length c)")
  case True
  then have lo: "- int (cbl_length c) \<le> i" and hi: "i < int (cbl_length c)" by simp_all
  obtain d where d: "setitem c i v = Inr d" "cbl_length d = cbl_length c"
    "length (cbl_data d) = length (cbl_data c)"
    using setitem_in_range [OF assms(1) lo hi, of v] by metis
  with assms have "d = c'" by simp
  with d assms(1) show ?thesis by (simp add: cbl_inv_def)
next
  case False
  then show ?thesis using assms(2) by (simp add: setitem_def)
qed

lemma next_cbl_inv:
  assumes "cbl_inv c" and "next_cbl c = (r, c')"
  shows "cbl_inv c'"
proof (cases "cbl_index c < cbl_length c")
  case True
  then have "c' = c \<or> c' = c\<lparr>cbl_index := cbl_index c + 1\<rparr>"
    using assms(2) by (cases "getitem c (int (cbl_index c))") (simp_all add: next_cbl_def)
  then show ?thesis using assms(1) by (auto simp: cbl_inv_def)
next
  case False
  then have "c' = c\<lparr>cbl_index := 0\<rparr>" using assms(2) by (simp add: next_cbl_def)
  then show ?thesis using assms(1) by (simp add: cbl_inv_def)
qed

lemma init_cbl_inv:
  assumes "init_cbl iterable = Inr c"
  shows "cbl_inv c"
proof (cases iterable)
  case None
  then show ?thesis using assms empty_cbl_inv by (simp add: init_cbl_def)
next
  case (Some xs)
  obtain d where "init_loop empty_cbl xs = Inr d" "cbl_inv d"
    using init_loop_ok [OF empty_cbl_inv, of xs] by blast
  then show ?thesis using assms Some by (simp add: init_cbl_def)
qed

lemma append_cbl_inv:
  assumes "cbl_inv c" and "append_cbl c v = Inr c'"
  shows "cbl_inv c'"
proof -
  obtain d where "append_cbl c v = Inr d" "cbl_inv d"
    using append_cbl_ok [OF assms(1), of v] by metis
  then show ?thesis using assms(2) by simp
qed

lemma reachable_inv: "reachable c \<Longrightarrow> cbl_inv c"
proof (induction rule: reachable.induct)
  case (constructed iterable c)
  then show ?case by (rule init_cbl_inv)
next
  case (appended c v c')
  then show ?case by (simp add: append_cbl_inv)
next
  case (assigned c i v c')
  from assigned.IH assigned.hyps(2) show ?case by (rule setitem_inv)
next
  case (advanced c r c')
  from advanced.IH advanced.hyps(2) show ?case by (rule next_cbl_inv)
qed

subsection \<open>Construction, indexing and conversion\<close>

lemma init_cbl_Some_ok:
  "\<exists>c. init_cbl (Some xs) = Inr c \<and> cbl_inv c \<and> cbl_index c = 0
        \<and> cbl_length c = length xs \<and> bits_of c = xs"
  using init_loop_ok [OF empty_cbl_inv, of xs]
  by (simp add: init_cbl_def empty_cbl_bits) (simp add: empty_cbl_def)

lemma bits_of_nth: "i < cbl_length c \<Longrightarrow> bits_of c ! i = bit_at c i"
  by (simp add: bits_of_def)

text \<open>
  Claim C4. A buffer constructed from a list of bits has the list's length, returns the
  list's \<open>i\<close>-th element at every index \<open>i\<close> below the length, and \<open>to_list\<close>
  gives the list back.
\<close>

theorem construct_roundtrip:
  "\<exists>c. init_cbl (Some xs) = Inr c \<and> len_cbl c = int (length xs)
       \<and> (\<forall>i. i < length xs \<longrightarrow> getitem c (int i) = Inr (xs ! i))
       \<and> fst (to_list c) = Inr xs"
proof -
  obtain c where c: "init_cbl (Some xs) = Inr c" "cbl_inv c" "cbl_index c = 0"
    "cbl_length c = length xs" "bits_of c = xs"
    using init_cbl_Some_ok [of xs] by blast
  have "getitem c (int i) = Inr (xs ! i)" if "i < length xs" for i
    using that c(2,4,5) getitem_nat [of c i] bits_of_nth [of i c] by simp
  moreover have "fst (to_list c) = Inr xs"
    using to_list_loop_ok [of c "[]"] c(2,3,5) by (simp add: to_list_def)
  ultimately show ?thesis using c(1,4) by (auto simp: len_cbl_def)
qed

theorem construct_roundtrip_witness:
  "\<exists>c. init_cbl (Some [True, False, True]) = Inr c \<and> len_cbl c = 3
       \<and> getitem c 1 = Inr False \<and> getitem c 2 = Inr True
       \<and> fst (to_list c) = Inr [True, False, True]"
proof -
  obtain c where c: "init_cbl (Some [True, False, True]) = Inr c"
    "len_cbl c = int (length [True, False, True])"
    "\<forall>i. i < length [True, False, True] \<longrightarrow> getitem c (int i) = Inr ([True, False, True] ! i)"
    "fst (to_list c) = Inr [True, False, True]"
    using construct_roundtrip [of "[True, False, True]"] by blast
  have "getitem c (int 1) = Inr ([True, False, True] ! 1)"
    using c(3) [rule_format, of 1] by simp
  moreover have "getitem c (int 2) = Inr ([True, False, True] ! 2)"
    using c(3) [rule_format, of 2] by simp
  ultimately show ?thesis using c(1,2,4) by auto
qed

subsection \<open>Storage size\<close>

lemma ceiling_div8: "\<lceil>real L / 8\<rceil> = int ((L + 7) div 8)"
proof -
  have "real_of_int (int ((L + 7) div 8)) - 1 < real L / 8"
  proof -
    have "int ((L + 7) div 8) * 8 + int ((L + 7) mod 8) = int L + 7"
      by (metis of_nat_add of_nat_mult of_nat_numeral div_mult_mod_eq)
    moreover have "int ((L + 7) mod 8) \<le> 7"
      by (simp add: less_Suc_eq_le [symmetric])
    ultimately have "int ((L + 7) div 8) * 8 < int L + 8" by linarith
    then have "real_of_int (int ((L + 7) div 8) * 8) < real_of_int (int L + 8)"
      by (rule of_int_less_iff [THEN iffD2])
    then show ?thesis by simp
  qed
  moreover have "real L / 8 \<le> real_of_int (int ((L + 7) div 8))"
  proof -
    have "int ((L + 7) div 8) * 8 + int ((L + 7) mod 8) = int L + 7"
      by (metis of_nat_add of_nat_mult of_nat_numeral div_mult_mod_eq)
    moreover have "int ((L + 7) mod 8) \<le> 7"
      by (simp add: less_Suc_eq_le [symmetric])
    ultimately have "int L \<le> int ((L + 7) div 8) * 8" by linarith
    then have "real_of_int (int L) \<le> real_of_int (int ((L + 7) div 8) * 8)"
      by (rule of_int_le_iff [THEN iffD2])
    then show ?thesis by simp
  qed
  ultimately show ?thesis by (rule ceiling_unique)
qed

lemma append_cbl_data:
  assumes "cbl_inv c"
  shows "\<exists>c'. append_cbl c v = Inr c' \<and> cbl_length c' = cbl_length c + 1
            \<and> (cbl_length c mod 8 = 0 \<longrightarrow> cbl_data c' = cbl_data c @ [if v then 1 else 0])
            \<and> (cbl_length c mod 8 \<noteq> 0 \<longrightarrow> length (cbl_data c') = length (cbl_data c))"
proof -
  obtain c' where c': "append_cbl c v = Inr c'" "cbl_length c' = cbl_length c + 1"
    "length (cbl_data c') =
       (if cbl_length c mod 8 = 0 then length (cbl_data c) + 1 else length (cbl_data c))"
    using append_cbl_ok [OF assms, of v] by metis
  have "cbl_data c' = cbl_data c @ [if v then 1 else 0]" if z: "cbl_length c mod 8 = 0"
  proof -
    let ?c1 = "c\<lparr>cbl_data := cbl_data c @ [0]\<rparr>"
    have at: "cbl_length c div 8 = length (cbl_data c)"
      using assms z by (simp add: cbl_inv_def ceil8)
    then have room: "cbl_length c div 8 < length (cbl_data ?c1)" by simp
    have "append_cbl c v =
            (case set_byte_and_bit_index ?c1 (int (cbl_length c)) v of
               Inl e \<Rightarrow> Inl e
             | Inr c2 \<Rightarrow> Inr (c2\<lparr>cbl_length := cbl_length c + 1\<rparr>))"
      using z by (simp add: append_cbl_def)
    then have "cbl_data c' =
            (cbl_data c @ [0])[length (cbl_data c) := (if v then 0 OR push_bit 0 1 else 0 AND NOT (push_bit 0 1))]"
      using c'(1) set_byte_nat [OF room, of v] z at by auto
    then show ?thesis by (cases v) simp_all
  qed
  then show ?thesis using c' by auto
qed

text \<open>
  Claim C8. Every buffer made by the constructor and changed by \<open>append\<close> (and by
  index assignment or \<open>__next__\<close>) has exactly \<open>ceil(length / 8)\<close> bytes of storage;
  \<open>append\<close> succeeds on it, and adds one byte, zero but for the new bit, exactly when
  the length before it was a multiple of 8.
\<close>

theorem storage_size_invariant:
  assumes "reachable c"
  shows "int (length (cbl_data c)) = \<lceil>real (cbl_length c) / 8\<rceil>
    \<and> (\<exists>c'. append_cbl c v = Inr c' \<and> reachable c' \<and> cbl_length c' = cbl_length c + 1
          \<and> (cbl_length c mod 8 = 0 \<longrightarrow> cbl_data c' = cbl_data c @ [if v then 1 else 0])
          \<and> (cbl_length c mod 8 \<noteq> 0 \<longrightarrow> length (cbl_data c') = length (cbl_data c)))"
proof -
  have inv: "cbl_inv c" using assms by (rule reachable_inv)
  then have "int (length (cbl_data c)) = \<lceil>real (cbl_length c) / 8\<rceil>"
    by (simp add: cbl_inv_def ceiling_div8)
  moreover from append_cbl_data [OF inv, of v] obtain c' where
    c': "append_cbl c v = Inr c' \<and> cbl_length c' = cbl_length c + 1
            \<and> (cbl_length c mod 8 = 0 \<longrightarrow> cbl_data c' = cbl_data c @ [if v then 1 else 0])
            \<and> (cbl_length c mod 8 \<noteq> 0 \<longrightarrow> length (cbl_data c') = length (cbl_data c))" ..
  moreover have "reachable c'" using assms c' [THEN conjunct1] by (rule reachable.appended)
  ultimately show ?thesis by (intro conjI exI [of _ c']) simp_all
qed

lemma init_cbl_example:
  "init_cbl (Some [True, False, True, True, False, False, True, False]) =
     Inr \<lparr>cbl_data = [77], cbl_length = 8, cbl_index = 0\<rparr>"
  by code_simp

theorem storage_size_invariant_witness:
  "int (length (cbl_data \<lparr>cbl_data = [77], cbl_length = 8, cbl_index = 0\<rparr>)) = \<lceil>real 8 / 8\<rceil>
    \<and> (\<exists>c'. append_cbl \<lparr>cbl_data = [77], cbl_length = 8, cbl_index = 0\<rparr> True = Inr c'
          \<and> reachable c' \<and> cbl_length c' = 9 \<and> cbl_data c' = [77, 1])"
proof -
  have "reachable \<lparr>cbl_data = [77], cbl_length = 8, cbl_index = 0\<rparr>"
    using init_cbl_example by (rule reachable.constructed)
  from storage_size_invariant [OF this, of True] show ?thesis by simp
qed

subsection \<open>Index errors and traversal\<close>

lemma setitem_resolve:
  assumes "- int (cbl_length c) \<le> i" and "i < int (cbl_length c)"
  shows "setitem c i v = set_byte_and_bit_index c (int (resolve_index c i)) v"
  using assms byte_index_resolve(1) [OF assms]
  by (simp add: setitem_def set_byte_and_bit_index_def)

lemma getitem_resolve:
  assumes "- int (cbl_length c) \<le> i" and "i < int (cbl_length c)"
  shows "getitem c i = getitem c (int (resolve_index c i))"
  using assms byte_index_resolve [OF assms]
  by (simp add: getitem_def)

lemma resolve_index_negative:
  assumes "- int (cbl_length c) \<le> i" and "i < 0"
  shows "int (resolve_index c i) = int (cbl_length c) + i"
    and "resolve_index c (int (cbl_length c) + i) = resolve_index c i"
  using assms by (simp_all add: resolve_index_def)

lemma setitem_in_range_ex:
  assumes "cbl_inv c" and "- int (cbl_length c) \<le> i" and "i < int (cbl_length c)"
  shows "\<exists>c'. setitem c i v = Inr c' \<and> cbl_length c' = cbl_length c
                \<and> cbl_index c' = cbl_index c
                \<and> length (cbl_data c') = length (cbl_data c)
                \<and> (\<forall>k. bit_at c' k = (if k = resolve_index c i then v else bit_at c k))"
proof (rule setitem_in_range [OF assms, of v])
  fix c'
  assume "setitem c i v = Inr c'" "cbl_length c' = cbl_length c" "cbl_index c' = cbl_index c"
    "length (cbl_data c') = length (cbl_data c)"
    "\<And>k. bit_at c' k = (if k = resolve_index c i then v else bit_at c k)"
  then show ?thesis by (intro exI [of _ c']) simp
qed

text \<open>
  Claim C9. On a buffer of length \<open>L\<close>, reading and writing one element raise
  IndexError exactly for an index outside \<open>[-L, L)\<close>. Inside the interval both
  succeed: the read returns the bit at the resolved position, the write sets that bit
  and changes neither the length, the cursor, the storage size nor any other bit of the
  storage. A negative index \<open>i\<close> in the interval resolves to \<open>L + i\<close>: reading and
  writing at \<open>i\<close> are reading and writing at \<open>L + i\<close>.
\<close>

theorem index_out_of_range_iff:
  assumes "reachable c"
  shows "(getitem c i = Inl IndexError \<longleftrightarrow> \<not> (- len_cbl c \<le> i \<and> i < len_cbl c))
    \<and> (setitem c i b = Inl IndexError \<longleftrightarrow> \<not> (- len_cbl c \<le> i \<and> i < len_cbl c))
    \<and> (- len_cbl c \<le> i \<and> i < len_cbl c \<longrightarrow>
          getitem c i = Inr (bit_at c (resolve_index c i))
          \<and> (\<exists>c'. setitem c i b = Inr c' \<and> cbl_length c' = cbl_length c
                \<and> cbl_index c' = cbl_index c
                \<and> length (cbl_data c') = length (cbl_data c)
                \<and> (\<forall>k. bit_at c' k = (if k = resolve_index c i then b else bit_at c k))
                \<and> getitem c' i = Inr b))
    \<and> (- len_cbl c \<le> i \<and> i < 0 \<longrightarrow>
          int (resolve_index c i) = len_cbl c + i
          \<and> getitem c i = getitem c (len_cbl c + i)
          \<and> setitem c i b = setitem c (len_cbl c + i) b)"
proof -
  have inv: "cbl_inv c" using assms by (rule reachable_inv)
  show ?thesis
  proof (cases "- int (cbl_length c) \<le> i \<and> i < int (cbl_length c)")
    case False
    then have "getitem c i = Inl IndexError" and "setitem c i b = Inl IndexError"
      by (simp_all add: getitem_def setitem_def)
    with False show ?thesis by (auto simp: len_cbl_def)
  next
    case True
    then have lo: "- int (cbl_length c) \<le> i" and hi: "i < int (cbl_length c)" by simp_all
    have get: "getitem c i = Inr (bit_at c (resolve_index c i))"
      using inv lo hi by (rule getitem_in_range)
    from setitem_in_range_ex [OF inv lo hi, of b] obtain c' where
      cc: "setitem c i b = Inr c' \<and> cbl_length c' = cbl_length c
                \<and> cbl_index c' = cbl_index c
                \<and> length (cbl_data c') = length (cbl_data c)
                \<and> (\<forall>k. bit_at c' k = (if k = resolve_index c i then b else bit_at c k))" ..
    then have c': "setitem c i b = Inr c'" "cbl_length c' = cbl_length c"
      "cbl_index c' = cbl_index c" "length (cbl_data c') = length (cbl_data c)"
      "\<And>k. bit_at c' k = (if k = resolve_index c i then b else bit_at c k)"
      by simp_all
    have inv': "cbl_inv c'" using inv c'(1) by (rule setitem_inv)
    have "getitem c' i = Inr (bit_at c' (resolve_index c' i))"
      using inv' lo hi c'(2) by (intro getitem_in_range) simp_all
    moreover have "resolve_index c' i = resolve_index c i"
      by (simp add: resolve_index_def c'(2))
    ultimately have get': "getitem c' i = Inr b" by (simp add: c'(5))
    have part3: "getitem c i = Inr (bit_at c (resolve_index c i))
          \<and> (\<exists>c'. setitem c i b = Inr c' \<and> cbl_length c' = cbl_length c
                \<and> cbl_index c' = cbl_index c
                \<and> length (cbl_data c') = length (cbl_data c)
                \<and> (\<forall>k. bit_at c' k = (if k = resolve_index c i then b else bit_at c k))
                \<and> getitem c' i = Inr b)"
      using get c' get' by (intro conjI exI [of _ c']) simp_all
    have part4: "int (resolve_index c i) = len_cbl c + i
          \<and> getitem c i = getitem c (len_cbl c + i)
          \<and> setitem c i b = setitem c (len_cbl c + i) b" if neg: "i < 0"
    proof -
      have r: "int (resolve_index c i) = int (cbl_length c) + i"
        using lo neg by (rule resolve_index_negative(1))
      have "getitem c i = getitem c (int (resolve_index c i))"
        using lo hi by (rule getitem_resolve)
      moreover have "setitem c i b = set_byte_and_bit_index c (int (resolve_index c i)) b"
        using lo hi by (rule setitem_resolve)
      moreover have "setitem c (int (resolve_index c i)) b =
                       set_byte_and_bit_index c (int (resolve_index c i)) b"
        using lo neg r by (simp add: setitem_def)
      ultimately show ?thesis using r by (simp add: len_cbl_def)
    qed
    show ?thesis using True get c'(1) part3 part4 by (simp add: len_cbl_def)
  qed
qed

theorem index_out_of_range_iff_witness:
  "getitem \<lparr>cbl_data = [77], cbl_length = 8, cbl_index = 0\<rparr> (- 3)
     = getitem \<lparr>cbl_data = [77], cbl_length = 8, cbl_index = 0\<rparr> 5
   \<and> getitem \<lparr>cbl_data = [77], cbl_length = 8, cbl_index = 0\<rparr> (- 3) \<noteq> Inl IndexError
   \<and> (\<exists>c'. setitem \<lparr>cbl_data = [77], cbl_length = 8, cbl_index = 0\<rparr> (- 3) True = Inr c'
          \<and> cbl_length c' = 8 \<and> getitem c' (- 3) = Inr True)"
proof -
  have "reachable \<lparr>cbl_data = [77], cbl_length = 8, cbl_index = 0\<rparr>"
    using init_cbl_example by (rule reachable.constructed)
  from index_out_of_range_iff [OF this, of "- 3" True] show ?thesis
    by (auto simp: len_cbl_def)
qed

text \<open>
  Claim C2 fails on the code: the cursor is part of the container. On the buffer built
  from \<open>[True, False]\<close> a full traversal yields both bits, but after one
  \<open>__next__\<close> of a traversal that is then abandoned the next traversal starts at
  index 1 and yields \<open>[False]\<close> only; and a full inner traversal started after one
  step of an outer one resets the cursor, so the outer traversal yields index 0 again.
\<close>

theorem shared_cursor_traversal:
  "init_cbl (Some [True, False]) = Inr \<lparr>cbl_data = [1], cbl_length = 2, cbl_index = 0\<rparr>
   \<and> fst (to_list \<lparr>cbl_data = [1], cbl_length = 2, cbl_index = 0\<rparr>) = Inr [True, False]
   \<and> fst (next_cbl \<lparr>cbl_data = [1], cbl_length = 2, cbl_index = 0\<rparr>) = Inr True
   \<and> fst (to_list (snd (next_cbl \<lparr>cbl_data = [1], cbl_length = 2, cbl_index = 0\<rparr>))) = Inr [False]
   \<and> fst (next_cbl (snd (to_list (snd (next_cbl \<lparr>cbl_data = [1], cbl_length = 2, cbl_index = 0\<rparr>)))))
        = Inr True"
  by code_simp

section \<open>Properties of the Von Neumann extractor\<close>

lemma von_neumann_Nil: "von_neumann [] = []"
  by (simp add: von_neumann_def)

lemma von_neumann_single: "von_neumann [x] = []"
  by (simp add: von_neumann_def)

lemma von_neumann_pair:
  "von_neumann (x # y # bits) = (if x \<noteq> y then [x] else []) @ von_neumann bits"
  by (cases bits) (simp_all add: von_neumann_def)

lemma von_neumann_spec_Nil: "von_neumann_spec [] = []"
  by (simp add: von_neumann_spec_def)

lemma von_neumann_spec_single: "von_neumann_spec [x] = []"
  by (simp add: von_neumann_spec_def)

lemma von_neumann_spec_pair:
  "von_neumann_spec (x # y # bits) = (if x \<noteq> y then [x] else []) @ von_neumann_spec bits"
proof -
  let ?n = "length bits div 2"
  have idx: "[0..<Suc ?n] = 0 # map Suc [0..<?n]"
    by (simp add: upt_conv_Cons map_Suc_upt del: upt_Suc)
  have len: "length (x # y # bits) div 2 = Suc ?n" by simp
  show ?thesis
    unfolding von_neumann_spec_def len idx
    by (simp add: filter_map comp_def)
qed

lemma von_neumann_refines: "von_neumann bits = von_neumann_spec bits"
proof (induction bits rule: slice_step2.induct)
  case 1
  show ?case by (simp add: von_neumann_Nil von_neumann_spec_Nil)
next
  case (2 x)
  show ?case by (simp add: von_neumann_single von_neumann_spec_single)
next
  case (3 x y xs)
  then show ?case by (simp only: von_neumann_pair von_neumann_spec_pair)
qed

lemma von_neumann_length: "length (von_neumann bits) \<le> length bits div 2"
proof -
  have "length (von_neumann_spec bits) \<le> length [0..<length bits div 2]"
    unfolding von_neumann_spec_def length_map by (rule length_filter_le)
  then show ?thesis by (simp add: von_neumann_refines)
qed

text \<open>
  Claim C6. \<open>von_neumann\<close> is the extractor of the specification: over the
  consecutive pairs \<open>(bits[2i], bits[2i+1])\<close>, \<open>i < length div 2\<close> (a trailing
  unpaired bit belongs to no pair), it emits the first bit of every pair whose bits
  differ and nothing else; its output has at most \<open>length div 2\<close> elements; and the
  three examples of the specification evaluate as stated.
\<close>

theorem von_neumann_pairs:
  "von_neumann bits = von_neumann_spec bits
   \<and> length (von_neumann bits) \<le> length bits div 2
   \<and> von_neumann [0, 1, 1, 0, 1, 1, 0, 0] = [0, 1]
   \<and> von_neumann [] = []
   \<and> von_neumann [1] = []"
proof -
  have "von_neumann [0, 1, 1, 0, 1, 1, 0, 0] = [0, 1]"
    by (simp add: von_neumann_pair von_neumann_Nil)
  then show ?thesis
    using von_neumann_refines [of bits] von_neumann_length [of bits]
    by (simp add: von_neumann_Nil von_neumann_single)
qed

section \<open>Properties of the Trevisan orchestrator\<close>

lemma extract_loop_logged:
  assumes total: "\<And>e i. \<exists>b e'. extract_bit e i = Inr (b, e')"
    and inv: "cbl_inv bits"
  shows "\<exists>out e' answers.
           extract_loop (logged extract_bit) idxs (e, calls) bits = Inr (out, (e', calls @ zip idxs answers))
           \<and> length answers = length idxs \<and> cbl_inv out
           \<and> cbl_length out = cbl_length bits + length idxs
           \<and> cbl_index out = cbl_index bits
           \<and> bits_of out = bits_of bits @ answers"
  using inv
proof (induction idxs arbitrary: e calls bits)
  case Nil
  then show ?case by simp
next
  case (Cons i idxs)
  from total [of e i] obtain b e1 where step: "extract_bit e i = Inr (b, e1)" by blast
  then have lstep: "logged extract_bit (e, calls) i = Inr (b, (e1, calls @ [(i, b)]))"
    by (simp add: logged_def)
  obtain bits1 where app: "append_cbl bits b = Inr bits1" "cbl_inv bits1"
    "cbl_length bits1 = cbl_length bits + 1" "cbl_index bits1 = cbl_index bits"
    "\<And>j. j \<le> cbl_length bits \<Longrightarrow> bit_at bits1 j = (if j = cbl_length bits then b else bit_at bits j)"
    using append_cbl_ok [OF Cons.prems, of b] by metis
  have b1: "bits_of bits1 = bits_of bits @ [b]"
    using app(3) app(5) by (rule bits_of_append)
  from Cons.IH [OF app(2), of e1 "calls @ [(i, b)]"] obtain out e' answers where
    rest: "extract_loop (logged extract_bit) idxs (e1, calls @ [(i, b)]) bits1
             = Inr (out, (e', (calls @ [(i, b)]) @ zip idxs answers))
           \<and> length answers = length idxs \<and> cbl_inv out
           \<and> cbl_length out = cbl_length bits1 + length idxs
           \<and> cbl_index out = cbl_index bits1
           \<and> bits_of out = bits_of bits1 @ answers"
    by blast
  have "extract_loop (logged extract_bit) (i # idxs) (e, calls) bits
          = Inr (out, (e', calls @ zip (i # idxs) (b # answers)))"
    using lstep app(1) rest by simp
  moreover have "length (b # answers) = length (i # idxs)" using rest by simp
  moreover have "cbl_length out = cbl_length bits + length (i # idxs)"
    using rest app(3) by simp
  moreover have "cbl_index out = cbl_index bits" using rest app(4) by simp
  moreover have "bits_of out = bits_of bits @ (b # answers)" using rest b1 by simp
  ultimately show ?case using rest by blast
qed

lemma range_py_length: "length (range_py m) = nat m"
  by (simp add: range_py_def)

lemma range_py_nth: "i < nat m \<Longrightarrow> range_py m ! i = int i"
  by (simp add: range_py_def)

lemma range_py_upt: "range_py m = map int [0..<nat m]"
  by (rule nth_equalityI) (simp_all add: range_py_length range_py_nth)


lemma extract_loop_logged_result:
  assumes inv: "cbl_inv bits"
    and run: "extract_loop (logged extract_bit) idxs (e, calls) bits = Inr (out, (e', calls'))"
  shows "\<exists>answers. calls' = calls @ zip idxs answers
           \<and> length answers = length idxs \<and> cbl_inv out
           \<and> cbl_length out = cbl_length bits + length idxs
           \<and> cbl_index out = cbl_index bits
           \<and> bits_of out = bits_of bits @ answers"
  using inv run
proof (induction idxs arbitrary: e calls bits)
  case Nil
  then show ?case by simp
next
  case (Cons i idxs)
  obtain b e1 where step: "extract_bit e i = Inr (b, e1)"
    using Cons.prems(2) by (cases "extract_bit e i") (auto simp: logged_def)
  then have lstep: "logged extract_bit (e, calls) i = Inr (b, (e1, calls @ [(i, b)]))"
    by (simp add: logged_def)
  obtain bits1 where app: "append_cbl bits b = Inr bits1" "cbl_inv bits1"
    "cbl_length bits1 = cbl_length bits + 1" "cbl_index bits1 = cbl_index bits"
    "\<And>j. j \<le> cbl_length bits \<Longrightarrow> bit_at bits1 j = (if j = cbl_length bits then b else bit_at bits j)"
    using append_cbl_ok [OF Cons.prems(1), of b] by metis
  have b1: "bits_of bits1 = bits_of bits @ [b]"
    using app(3) app(5) by (rule bits_of_append)
  have "extract_loop (logged extract_bit) idxs (e1, calls @ [(i, b)]) bits1 = Inr (out, (e', calls'))"
    using Cons.prems(2) lstep app(1) by simp
  from Cons.IH [OF app(2) this] obtain answers where
    rest: "calls' = (calls @ [(i, b)]) @ zip idxs answers
           \<and> length answers = length idxs \<and> cbl_inv out
           \<and> cbl_length out = cbl_length bits1 + length idxs
           \<and> cbl_index out = cbl_index bits1
           \<and> bits_of out = bits_of bits1 @ answers"
    by blast
  have "calls' = calls @ zip (i # idxs) (b # answers)" using rest by simp
  moreover have "length (b # answers) = length (i # idxs)" using rest by simp
  moreover have "cbl_length out = cbl_length bits + length (i # idxs)"
    using rest app(3) by simp
  moreover have "cbl_index out = cbl_index bits" using rest app(4) by simp
  moreover have "bits_of out = bits_of bits @ (b # answers)" using rest b1 by simp
  ultimately show ?case using rest by blast
qed

text \<open>
  Claim C7. Run on a recording engine, whenever \<open>extract\<close> returns: the recorded
  calls of \<open>extract_bit\<close> are the indices \<open>0, 1, ..., m - 1\<close> in this order, one call
  each; and the returned buffer is a fresh one (cursor 0) of length \<open>m\<close> whose
  \<open>i\<close>-th bit is the answer of the \<open>i\<close>-th call: the engine's answer for index
  \<open>i\<close>. And \<open>extract\<close> does return when the engine's operations do not raise.
\<close>

theorem extract_calls_in_order:
  "(\<forall>out e2 calls.
       extract_trevisan (logged_load load_source) (logged extract_bit)
           \<lparr>config_m = m, ext = (e0, [])\<rparr> input1 input2
         = Inr (out, \<lparr>config_m = m, ext = (e2, calls)\<rparr>)
       \<longrightarrow> map fst calls = [0..m - 1]
         \<and> length calls = nat m
         \<and> len_cbl out = int (nat m)
         \<and> cbl_index out = 0
         \<and> fst (to_list out) = Inr (map snd calls)
         \<and> (\<forall>i. i < nat m \<longrightarrow>
               fst (calls ! i) = int i \<and> getitem out (int i) = Inr (snd (calls ! i))))
   \<and> ((\<exists>e1. load_source e0 input1 input2 = Inr e1)
         \<and> (\<forall>e i. \<exists>b e'. extract_bit e i = Inr (b, e'))
       \<longrightarrow> (\<exists>out e2 calls.
             extract_trevisan (logged_load load_source) (logged extract_bit)
                 \<lparr>config_m = m, ext = (e0, [])\<rparr> input1 input2
               = Inr (out, \<lparr>config_m = m, ext = (e2, calls)\<rparr>)))"
proof (intro conjI allI impI)
  fix out e2 calls
  assume res: "extract_trevisan (logged_load load_source) (logged extract_bit)
           \<lparr>config_m = m, ext = (e0, [])\<rparr> input1 input2
         = Inr (out, \<lparr>config_m = m, ext = (e2, calls)\<rparr>)"
  obtain e1 where load: "load_source e0 input1 input2 = Inr e1"
    using res by (cases "load_source e0 input1 input2")
      (simp_all add: extract_trevisan_def logged_load_def)
  have run: "extract_loop (logged extract_bit) (range_py m) (e1, []) empty_cbl = Inr (out, (e2, calls))"
    using res load
    by (cases "extract_loop (logged extract_bit) (range_py m) (e1, []) empty_cbl")
      (auto simp: extract_trevisan_def logged_load_def init_cbl_def)
  from extract_loop_logged_result [OF empty_cbl_inv run] obtain answers where
    calls: "calls = [] @ zip (range_py m) answers"
    and len: "length answers = length (range_py m)"
    and inv: "cbl_inv out"
    and size: "cbl_length out = cbl_length empty_cbl + length (range_py m)"
    and cur: "cbl_index out = cbl_index empty_cbl"
    and bits: "bits_of out = bits_of empty_cbl @ answers"
    by blast
  have n: "length answers = nat m" using len by (simp add: range_py_length)
  show fsts: "map fst calls = [0..m - 1]"
    using len calls by (simp add: range_py_def)
  have snds: "map snd calls = answers" using len calls by simp
  show lc: "length calls = nat m" using n calls by (simp add: range_py_length)
  have sz: "cbl_length out = nat m" using size by (simp add: empty_cbl_def range_py_length)
  then show "len_cbl out = int (nat m)" by (simp add: len_cbl_def)
  show c0: "cbl_index out = 0" using cur by (simp add: empty_cbl_def)
  have bo: "bits_of out = answers" using bits by (simp add: empty_cbl_bits)
  show "fst (to_list out) = Inr (map snd calls)"
    using to_list_loop_ok [of out "[]"] inv c0 bo snds by (simp add: to_list_def)
  fix i assume i: "i < nat m"
  show "fst (calls ! i) = int i"
    using i n calls by (simp add: range_py_length range_py_nth)
  have "getitem out (int i) = Inr (bit_at out i)"
    using inv i sz by (intro getitem_nat) simp_all
  moreover have "bit_at out i = answers ! i"
    using bits_of_nth [of i out] i sz bo by simp
  ultimately show "getitem out (int i) = Inr (snd (calls ! i))"
    using i n calls by (simp add: range_py_length range_py_nth)
next
  assume a: "(\<exists>e1. load_source e0 input1 input2 = Inr e1)
         \<and> (\<forall>e i. \<exists>b e'. extract_bit e i = Inr (b, e'))"
  then obtain e1 where load: "load_source e0 input1 input2 = Inr e1" by blast
  have total: "\<And>e i. \<exists>b e'. extract_bit e i = Inr (b, e')" using a by blast
  from extract_loop_logged [of extract_bit empty_cbl "range_py m" e1 "[]", OF total empty_cbl_inv]
  obtain out e2 answers where
    "extract_loop (logged extract_bit) (range_py m) (e1, []) empty_cbl
            = Inr (out, (e2, [] @ zip (range_py m) answers))"
    by blast
  then have "extract_trevisan (logged_load load_source) (logged extract_bit)
         \<lparr>config_m = m, ext = (e0, [])\<rparr> input1 input2
       = Inr (out, \<lparr>config_m = m, ext = (e2, zip (range_py m) answers)\<rparr>)"
    using load by (simp add: extract_trevisan_def logged_load_def init_cbl_def)
  then show "\<exists>out e2 calls.
             extract_trevisan (logged_load load_source) (logged extract_bit)
                 \<lparr>config_m = m, ext = (e0, [])\<rparr> input1 input2
               = Inr (out, \<lparr>config_m = m, ext = (e2, calls)\<rparr>)"
    by blast
qed

lemma upto_0_3: "[0..(3::int)] = [0, 1, 2, 3]"
  by code_simp

theorem extract_calls_in_order_witness:
  "\<exists>out e2 calls.
     extract_trevisan (logged_load (\<lambda>e a b. Inr e)) (logged (\<lambda>e i. Inr (even i, Suc e)))
         \<lparr>config_m = 4, ext = (0 :: nat, [])\<rparr> empty_cbl empty_cbl
       = Inr (out, \<lparr>config_m = 4, ext = (e2, calls)\<rparr>)
     \<and> map fst calls = [0, 1, 2, 3]
     \<and> length calls = 4
     \<and> len_cbl out = 4"
proof -
  note inst = extract_calls_in_order [of "\<lambda>e a b. Inr e" "\<lambda>e i. Inr (even i, Suc e)" 4 "0 :: nat"
      empty_cbl empty_cbl]
  have "\<exists>e1. (\<lambda>e a b. Inr e) (0 :: nat) empty_cbl empty_cbl = (Inr e1 :: error + nat)" by simp
  moreover have "\<forall>(e :: nat) (i :: int). \<exists>b e'.
      (\<lambda>e i. Inr (even i, Suc e)) e i = (Inr (b, e') :: error + bool \<times> nat)"
    by simp
  ultimately obtain out e2 calls where
    res: "extract_trevisan (logged_load (\<lambda>e a b. Inr e)) (logged (\<lambda>e i. Inr (even i, Suc e)))
         \<lparr>config_m = 4, ext = (0 :: nat, [])\<rparr> empty_cbl empty_cbl
       = Inr (out, \<lparr>config_m = 4, ext = (e2, calls)\<rparr>)"
    using inst [THEN conjunct2] by blast
  then have "map fst calls = [0..4 - 1] \<and> length calls = nat 4 \<and> len_cbl out = int (nat 4)"
    using inst [THEN conjunct1] by blast
  then show ?thesis
    using res by (intro exI [of _ out] exI [of _ e2] exI [of _ calls]) (simp add: upto_0_3)
qed

section \<open>Properties of the number-theoretic functions\<close>

subsection \<open>The rounded square root\<close>

lemma round_sqrt_from_upper: "n \<le> round_sqrt_from n m * round_sqrt_from n m + round_sqrt_from n m"
proof (induction n m rule: round_sqrt_from.induct)
  case (1 n m)
  show ?case
  proof (cases "m * m + m < n")
    case True
    with 1 show ?thesis by (simp add: round_sqrt_from.simps [of n m])
  next
    case False
    then show ?thesis by (simp add: round_sqrt_from.simps [of n m])
  qed
qed

lemma round_sqrt_from_lower:
  assumes "\<And>j. j < m \<Longrightarrow> j * j + j < n"
    and "j < round_sqrt_from n m"
  shows "j * j + j < n"
  using assms
proof (induction n m rule: round_sqrt_from.induct)
  case (1 n m)
  show ?case
  proof (cases "m * m + m < n")
    case True
    have "\<And>i. i < m + 1 \<Longrightarrow> i * i + i < n"
      using "1.prems"(1) True by (metis Suc_eq_plus1 less_Suc_eq)
    moreover have "j < round_sqrt_from n (m + 1)"
      using "1.prems"(2) True by (simp add: round_sqrt_from.simps [of n m])
    ultimately show ?thesis using "1.IH" [OF True] by blast
  next
    case False
    then have "j < m" using "1.prems"(2) by (simp add: round_sqrt_from.simps [of n m])
    then show ?thesis by (rule "1.prems"(1))
  qed
qed

lemma round_sqrt_from_lower0: "j < round_sqrt_from n 0 \<Longrightarrow> j * j + j < n"
  using _ round_sqrt_from_lower [of 0 n j] by simp

lemma round_sqrt_nonneg: "0 \<le> n \<Longrightarrow> round_sqrt n = Inr (int (round_sqrt_from (nat n) 0))"
  by (simp add: round_sqrt_def)

lemma round_sqrt_real:
  assumes "0 \<le> n"
  shows "round_sqrt n = Inr (round (sqrt (real_of_int n)))"
proof -
  define r where "r = round_sqrt_from (nat n) 0"
  have r: "round_sqrt n = Inr (int r)"
    using assms by (simp add: r_def round_sqrt_nonneg)
  have up: "nat n \<le> r * r + r"
    unfolding r_def by (rule round_sqrt_from_upper)
  have low: "j * j + j < nat n" if "j < r" for j
    using that unfolding r_def by (rule round_sqrt_from_lower0)
  let ?x = "sqrt (real_of_int n)"
  have n: "real_of_int n = real (nat n)" using assms by simp
  have "real (nat n) \<le> real (r * r + r)" using up by (rule of_nat_mono)
  then have "real_of_int n < (real r + 1 / 2)\<^sup>2"
    by (simp add: n power2_eq_square algebra_simps)
  then have hi: "?x < real r + 1 / 2"
    by (intro real_less_lsqrt) simp_all
  have lo: "real r - 1 / 2 \<le> ?x"
  proof (cases r)
    case 0
    have "0 \<le> ?x" using assms by simp
    then have "- (1 / 2) \<le> ?x" by linarith
    then show ?thesis unfolding 0 by simp
  next
    case (Suc j)
    then have "j * j + j < nat n" using low [of j] by simp
    then have "real (j * j + j) + 1 \<le> real (nat n)" by linarith
    then have "(real r - 1 / 2)\<^sup>2 \<le> real_of_int n"
      by (simp add: n Suc power2_eq_square algebra_simps)
    then show ?thesis by (rule real_le_rsqrt)
  qed
  have "round ?x = int r"
    unfolding round_def
  proof (rule floor_unique)
    show "real_of_int (int r) \<le> ?x + 1 / 2" using lo by simp
    show "?x + 1 / 2 < real_of_int (int r) + 1" using hi by simp
  qed
  then show ?thesis using r by simp
qed

subsection \<open>Primality by trial division\<close>

lemma is_prime_nonneg:
  assumes "0 \<le> n"
  shows "is_prime n = Inr (\<forall>i. 2 \<le> i \<and> i \<le> int (round_sqrt_from (nat n) 0) \<longrightarrow> \<not> i dvd n)"
  using assms
  by (auto simp: is_prime_def trial_range_def round_sqrt_nonneg list_all_iff dvd_eq_mod_eq_0)

lemma is_prime_negative: "n < 0 \<Longrightarrow> is_prime n = Inl ValueError"
  by (simp add: is_prime_def trial_range_def round_sqrt_def)

lemma round_sqrt_less:
  assumes "2 \<le> n"
  shows "round_sqrt_from n 0 < n"
proof (rule ccontr)
  let ?r = "round_sqrt_from n 0"
  obtain k where k: "n = Suc k" and k1: "1 \<le> k"
    using assms by (cases n) simp_all
  assume "\<not> ?r < n"
  then have "k < ?r" using k by simp
  then have "k * k + k < n" by (rule round_sqrt_from_lower0)
  then have "k * k < 1" using k by simp
  moreover have "1 * 1 \<le> k * k" using k1 by (intro mult_le_mono) simp_all
  ultimately show False by simp
qed

lemma small_divisor:
  fixes d e n :: int
  assumes "1 < d" and "1 < e" and "n = d * e" and "d \<le> e"
  shows "d \<le> int (round_sqrt_from (nat n) 0)"
proof (rule ccontr)
  let ?r = "int (round_sqrt_from (nat n) 0)"
  assume "\<not> d \<le> ?r"
  then have "?r + 1 \<le> d" by simp
  moreover have "0 \<le> ?r" by simp
  ultimately have "(?r + 1) * (?r + 1) \<le> d * d" by (intro mult_mono) simp_all
  also have "d * d \<le> d * e" using assms by (intro mult_left_mono) simp_all
  finally have less: "?r * ?r + ?r < n" using assms(3) by (simp add: algebra_simps)
  have n0: "0 \<le> n" using assms by simp
  have "nat n \<le> round_sqrt_from (nat n) 0 * round_sqrt_from (nat n) 0 + round_sqrt_from (nat n) 0"
    by (rule round_sqrt_from_upper)
  then have "int (nat n) \<le> ?r * ?r + ?r"
    by (metis of_nat_add of_nat_mult of_nat_le_iff)
  then have "n \<le> ?r * ?r + ?r" using n0 by simp
  then show False using less by simp
qed

lemma is_prime_correct:
  assumes "2 \<le> n"
  shows "is_prime n = Inr (prime_number n)"
proof -
  let ?r = "int (round_sqrt_from (nat n) 0)"
  have rn: "?r < n"
  proof -
    have "2 \<le> nat n" using assms by simp
    then have "round_sqrt_from (nat n) 0 < nat n" by (rule round_sqrt_less)
    then have "?r < int (nat n)" by (simp only: of_nat_less_iff)
    then show ?thesis using assms by simp
  qed
  have "(\<forall>i. 2 \<le> i \<and> i \<le> ?r \<longrightarrow> \<not> i dvd n) \<longleftrightarrow> prime_number n"
  proof
    assume none: "\<forall>i. 2 \<le> i \<and> i \<le> ?r \<longrightarrow> \<not> i dvd n"
    have "\<not> d dvd n" if d: "1 < d" "d < n" for d
    proof
      assume "d dvd n"
      then obtain e where e: "n = d * e" by (rule dvdE)
      have "1 < e"
      proof (rule ccontr)
        assume "\<not> 1 < e"
        then have "e \<le> 1" by simp
        then have "d * e \<le> d * 1" using d by (intro mult_left_mono) simp_all
        then show False using e d by simp
      qed
      show False
      proof (cases "d \<le> e")
        case True
        then have "d \<le> ?r" using d(1) \<open>1 < e\<close> e by (intro small_divisor [of d e]) simp_all
        then show False using none d(1) \<open>d dvd n\<close> by auto
      next
        case False
        then have "e \<le> d" by simp
        then have "e \<le> ?r"
          using d(1) \<open>1 < e\<close> e by (intro small_divisor [of e d]) (simp_all add: mult.commute)
        moreover have "e dvd n" using e by simp
        ultimately show False using none \<open>1 < e\<close> by auto
      qed
    qed
    then show "prime_number n" using assms by (simp add: prime_number_def)
  next
    assume "prime_number n"
    then show "\<forall>i. 2 \<le> i \<and> i \<le> ?r \<longrightarrow> \<not> i dvd n"
      using rn by (auto simp: prime_number_def)
  qed
  then show ?thesis using assms by (simp add: is_prime_nonneg)
qed

lemma is_prime_small: "is_prime 0 = Inr True" "is_prime 1 = Inr True" "is_prime 2 = Inr True"
  "trial_range 0 = Inr []" "trial_range 1 = Inr []" "trial_range 2 = Inr []"
  by code_simp+




subsection \<open>Primes: divisors, infinitude, Euclid's lemma\<close>

lemma prime_nat_iff: "prime_nat p \<longleftrightarrow> 1 < p \<and> (\<forall>d. 1 < d \<and> d < p \<longrightarrow> \<not> d dvd p)"
proof
  assume p: "prime_nat p"
  then show "1 < p \<and> (\<forall>d. 1 < d \<and> d < p \<longrightarrow> \<not> d dvd p)"
    by (auto simp: prime_nat_def)
next
  assume r: "1 < p \<and> (\<forall>d. 1 < d \<and> d < p \<longrightarrow> \<not> d dvd p)"
  have "d = 1 \<or> d = p" if "d dvd p" for d
  proof -
    have "0 < d" using that r by (cases d) auto
    moreover have "d \<le> p" using that r by (intro dvd_imp_le) simp_all
    ultimately show ?thesis using r that by (cases "d = 1 \<or> d = p") auto
  qed
  then show "prime_nat p" using r by (simp add: prime_nat_def)
qed

lemma prime_number_nat: "prime_number (int p) \<longleftrightarrow> prime_nat p"
proof -
  have "(\<forall>d. 1 < d \<and> d < int p \<longrightarrow> \<not> d dvd int p) \<longleftrightarrow> (\<forall>d. 1 < d \<and> d < p \<longrightarrow> \<not> d dvd p)"
  proof
    assume l: "\<forall>d. 1 < d \<and> d < int p \<longrightarrow> \<not> d dvd int p"
    show "\<forall>d. 1 < d \<and> d < p \<longrightarrow> \<not> d dvd p"
    proof (intro allI impI)
      fix d :: nat assume "1 < d \<and> d < p"
      then have "1 < int d \<and> int d < int p" by simp
      then have "\<not> int d dvd int p" using l by blast
      then show "\<not> d dvd p" by simp
    qed
  next
    assume r: "\<forall>d. 1 < d \<and> d < p \<longrightarrow> \<not> d dvd p"
    show "\<forall>d. 1 < d \<and> d < int p \<longrightarrow> \<not> d dvd int p"
    proof (intro allI impI)
      fix d :: int assume d: "1 < d \<and> d < int p"
      then have "0 \<le> d" by simp
      then obtain k where k: "d = int k" by (rule nonneg_int_cases)
      then have "1 < k \<and> k < p" using d by simp
      then have "\<not> k dvd p" using r by blast
      then show "\<not> d dvd int p" by (simp add: k)
    qed
  qed
  then show ?thesis by (simp add: prime_number_def prime_nat_iff)
qed


lemma prime_divisor_exists: "2 \<le> n \<Longrightarrow> \<exists>p. prime_nat p \<and> p dvd n"
proof (induction n rule: less_induct)
  case (less n)
  show ?case
  proof (cases "prime_nat n")
    case True
    then show ?thesis by (intro exI [of _ n]) simp
  next
    case False
    then obtain d where d: "1 < d" "d < n" "d dvd n"
      using less.prems by (auto simp: prime_nat_iff)
    then obtain p where "prime_nat p" "p dvd d" using less.IH [of d] by auto
    then show ?thesis using d(3) by (blast intro: dvd_trans)
  qed
qed

lemma prime_above: "\<exists>p. prime_nat p \<and> n < p"
proof -
  have "2 \<le> fact n + (1::nat)" by (simp add: Suc_le_eq)
  then obtain p where p: "prime_nat p" "p dvd fact n + 1"
    using prime_divisor_exists by blast
  have "n < p"
  proof (rule ccontr)
    assume "\<not> n < p"
    then have "p \<le> n" by simp
    moreover have "1 \<le> p" using p(1) by (simp add: prime_nat_def)
    ultimately have "p dvd fact n" by (simp add: dvd_fact)
    then have "p dvd 1" using p(2) dvd_add_right_iff [of p "fact n" 1] by blast
    then show False using p(1) by (simp add: prime_nat_def)
  qed
  then show ?thesis using p(1) by blast
qed



subsection \<open>Fermat's little theorem for base 2\<close>





subsection \<open>The order of 2 from the prime-factor checks\<close>



subsection \<open>Facts for the factorisation\<close>







subsection \<open>The factorisation returns the prime factors\<close>







subsection \<open>The upward searches, where they return\<close>

lemma next_prime_loop_partial:
  assumes "next_prime_loop k = Some y"
  shows "\<forall>r. y = Inr r \<longrightarrow> k \<le> r \<and> even (r - k) \<and> is_prime (r + 1) = Inr True
           \<and> (\<forall>j. k \<le> j \<and> j < r \<and> even (j - k) \<longrightarrow> is_prime (j + 1) = Inr False)"
proof (rule next_prime_loop.raw_induct [where P = "\<lambda>k y.
           \<forall>r. y = Inr r \<longrightarrow> k \<le> r \<and> even (r - k) \<and> is_prime (r + 1) = Inr True
           \<and> (\<forall>j. k \<le> j \<and> j < r \<and> even (j - k) \<longrightarrow> is_prime (j + 1) = Inr False)",
         OF _ assms])
  fix loop :: "int \<Rightarrow> (error + int) option" and k :: int and y :: "error + int"
  assume IH: "\<And>k y. loop k = Some y \<Longrightarrow>
           \<forall>r. y = Inr r \<longrightarrow> k \<le> r \<and> even (r - k) \<and> is_prime (r + 1) = Inr True
           \<and> (\<forall>j. k \<le> j \<and> j < r \<and> even (j - k) \<longrightarrow> is_prime (j + 1) = Inr False)"
  assume body: "(case is_prime (k + 1) of Inl e \<Rightarrow> Some (Inl e)
      | Inr b \<Rightarrow> if \<not> b then loop (k + 2) else Some (Inr k)) = Some y"
  show "\<forall>r. y = Inr r \<longrightarrow> k \<le> r \<and> even (r - k) \<and> is_prime (r + 1) = Inr True
           \<and> (\<forall>j. k \<le> j \<and> j < r \<and> even (j - k) \<longrightarrow> is_prime (j + 1) = Inr False)"
  proof (intro allI impI)
    fix r assume y: "y = Inr r"
    show "k \<le> r \<and> even (r - k) \<and> is_prime (r + 1) = Inr True
           \<and> (\<forall>j. k \<le> j \<and> j < r \<and> even (j - k) \<longrightarrow> is_prime (j + 1) = Inr False)"
    proof (cases "is_prime (k + 1)")
      case (Inl e)
      then show ?thesis using body y by simp
    next
      case (Inr b)
      show ?thesis
      proof (cases b)
        case True
        then have "r = k" using body Inr y by simp
        then show ?thesis using Inr True by auto
      next
        case False
        then have "loop (k + 2) = Some y" using body Inr by simp
        then have rec: "k + 2 \<le> r" "even (r - (k + 2))" "is_prime (r + 1) = Inr True"
          "\<And>j. k + 2 \<le> j \<Longrightarrow> j < r \<Longrightarrow> even (j - (k + 2)) \<Longrightarrow> is_prime (j + 1) = Inr False"
          using IH y by blast+
        have "is_prime (j + 1) = Inr False" if j: "k \<le> j" "j < r" "even (j - k)" for j
        proof (cases "j = k")
          case True
          then show ?thesis using Inr False by simp
        next
          case ne: False
          then have "j \<noteq> k + 1" using j(3) by auto
          then have "k + 2 \<le> j" using j(1) ne by simp
          moreover have "even (j - (k + 2))" using j(3) by simp
          ultimately show ?thesis using j(2) by (intro rec(4))
        qed
        moreover have "even (r - k)" using rec(2) by simp
        ultimately show ?thesis using rec(1,3) by simp
      qed
    qed
  qed
qed



subsection \<open>Primes with primitive root 2\<close>

lemma start_even_up: "even (if (k - 1) mod 2 \<noteq> 0 then k - 1 + 1 else k - (1::int))"
proof (cases "even (k - 1)")
  case True
  then have "(k - 1) mod 2 = 0" using even_iff_mod_2_eq_zero [of "k - 1"] by blast
  then show ?thesis using True by simp
next
  case False
  then have "(k - 1) mod 2 \<noteq> 0" using even_iff_mod_2_eq_zero [of "k - 1"] by blast
  moreover have "even (k - 1 + 1)" using False by simp
  ultimately show ?thesis by simp
qed
lemma start_even_down: "even (if (k - 1) mod 2 \<noteq> 0 then k - 1 - 1 else k - (1::int))"
proof (cases "even (k - 1)")
  case True
  then have "(k - 1) mod 2 = 0" using even_iff_mod_2_eq_zero [of "k - 1"] by blast
  then show ?thesis using True by simp
next
  case False
  then have "(k - 1) mod 2 \<noteq> 0" using even_iff_mod_2_eq_zero [of "k - 1"] by blast
  moreover have "even (k - 1 - 1)" using False by simp
  ultimately show ?thesis by simp
qed
lemma even_ge_1: "even (r::int) \<Longrightarrow> 1 \<le> r \<Longrightarrow> 2 \<le> r"
  by (cases "r = 1") simp_all





subsection \<open>The prime searches return\<close>

lemma is_prime_False_ge:
  assumes "is_prime n = Inr False"
  shows "2 \<le> n"
proof (rule ccontr)
  assume "\<not> 2 \<le> n"
  then have "n < 0 \<or> n = 0 \<or> n = 1" by arith
  then show False using assms is_prime_negative [of n] is_prime_small(1,2) by auto
qed

lemma is_prime_total: "0 \<le> n \<Longrightarrow> \<exists>b. is_prime n = Inr b"
  by (simp add: is_prime_nonneg)

lemma previous_prime_loop_returns:
  assumes "- 1 \<le> k"
  shows "\<exists>r. previous_prime_loop k = Some (Inr r) \<and> - 1 \<le> r \<and> r \<le> k"
  using assms
proof (induction "nat (k + 1)" arbitrary: k rule: less_induct)
  case less
  obtain b where b: "is_prime (k + 1) = Inr b"
    using is_prime_total [of "k + 1"] less.prems by auto
  show ?case
  proof (cases b)
    case True
    then have "previous_prime_loop k = Some (Inr k)"
      using b by (subst previous_prime_loop.simps) simp
    then show ?thesis using less.prems by simp
  next
    case False
    then have ge: "2 \<le> k + 1" using b by (intro is_prime_False_ge) simp
    then have "nat (k - 2 + 1) < nat (k + 1)" by simp
    moreover have "- 1 \<le> k - 2" using ge by simp
    ultimately obtain r where r: "previous_prime_loop (k - 2) = Some (Inr r)" "- 1 \<le> r" "r \<le> k - 2"
      using less.hyps [of "k - 2"] by blast
    have "previous_prime_loop k = previous_prime_loop (k - 2)"
      using b False by (subst previous_prime_loop.simps) simp
    then show ?thesis using r by simp
  qed
qed

lemma prime_number_odd:
  assumes "prime_number p" and "p \<noteq> 2"
  shows "odd p"
proof
  assume "even p"
  then have "2 dvd p" by simp
  moreover have "2 < p"
  proof -
    have "1 < p" using assms(1) by (simp add: prime_number_def)
    then show ?thesis using assms(2) by simp
  qed
  ultimately show False using assms(1) by (auto simp: prime_number_def)
qed

lemma prime_number_above: "\<exists>p. prime_number p \<and> n < p"
proof -
  obtain q where q: "prime_nat q" "nat n < q" using prime_above by blast
  have "prime_number (int q)" using q(1) by (simp add: prime_number_nat)
  moreover have "n < int q" using q(2) by simp
  ultimately show ?thesis by blast
qed

lemma next_prime_loop_reaches:
  assumes "prime_number P" and "k + 1 \<le> P" and "even (P - (k + 1))" and "1 \<le> k"
  shows "\<exists>r. next_prime_loop k = Some (Inr r) \<and> r + 1 \<le> P"
  using assms(2,3,4)
proof (induction "nat (P - (k + 1))" arbitrary: k rule: less_induct)
  case less
  have k2: "2 \<le> k + 1" using less.prems(3) by simp
  then have ip: "is_prime (k + 1) = Inr (prime_number (k + 1))" by (rule is_prime_correct)
  show ?case
  proof (cases "prime_number (k + 1)")
    case True
    then have "next_prime_loop k = Some (Inr k)"
      using ip by (subst next_prime_loop.simps) simp
    then show ?thesis using less.prems(1) by simp
  next
    case False
    then have "P \<noteq> k + 1" using assms(1) by auto
    moreover have "P \<noteq> k + 2" using less.prems(2) by auto
    ultimately have le: "k + 2 + 1 \<le> P" using less.prems(1) by simp
    then have "nat (P - (k + 2 + 1)) < nat (P - (k + 1))" by simp
    moreover have "even (P - (k + 2 + 1))" using less.prems(2) by simp
    moreover have "1 \<le> k + 2" using less.prems(3) by simp
    ultimately obtain r where r: "next_prime_loop (k + 2) = Some (Inr r)" "r + 1 \<le> P"
      using less.hyps [of "k + 2"] le by blast
    have "next_prime_loop k = next_prime_loop (k + 2)"
      using ip False by (subst next_prime_loop.simps) simp
    then show ?thesis using r by simp
  qed
qed

lemma next_prime_loop_returns:
  assumes "even k" and "2 \<le> k"
  shows "\<exists>r. next_prime_loop k = Some (Inr r)"
proof -
  obtain P where P: "prime_number P" "k + 1 < P" using prime_number_above by blast
  then have "odd P" using assms(2) by (intro prime_number_odd) simp_all
  then have "even (P - (k + 1))" using assms(1) by simp
  then show ?thesis
    using next_prime_loop_reaches [OF P(1), of k] P(2) assms(2) by auto
qed



subsection \<open>Closest values and the boundary case 2\<close>








text \<open>
  Claim C1 fails on the code at \<open>k = 2\<close>: \<open>previous_prime(2)\<close> returns 1, which is
  not a prime, and \<open>next_prime(2)\<close> returns 3 although 2 itself is a prime. For an
  even \<open>k\<close> both searches start beside \<open>k\<close>, at \<open>k - 1\<close> and \<open>k + 1\<close>, and
  never probe \<open>k\<close>.
\<close>

theorem prime_search_at_two:
  "previous_prime 2 = Some (Inr 1) \<and> \<not> prime_number 1
   \<and> next_prime 2 = Some (Inr 3) \<and> prime_number 2"
proof -
  have "previous_prime 2 = Some (Inr 1)" "next_prime 2 = Some (Inr 3)" by code_simp+
  moreover have "\<not> prime_number 1" by (simp add: prime_number_def)
  moreover have "prime_number 2" by (auto simp: prime_number_def)
  ultimately show ?thesis by simp
qed

theorem prime_search_at_two_witness:
  "previous_prime 2 = Some (Inr 1) \<and> next_prime 2 = Some (Inr 3)"
  using prime_search_at_two by simp

subsection \<open>The prime searches from 3 on\<close>

lemma previous_prime_loop_partial:
  assumes "previous_prime_loop k = Some y"
  shows "\<forall>r. y = Inr r \<longrightarrow> r \<le> k \<and> even (k - r) \<and> is_prime (r + 1) = Inr True
           \<and> (\<forall>j. r < j \<and> j \<le> k \<and> even (k - j) \<longrightarrow> is_prime (j + 1) = Inr False)"
proof (rule previous_prime_loop.raw_induct [where P = "\<lambda>k y.
           \<forall>r. y = Inr r \<longrightarrow> r \<le> k \<and> even (k - r) \<and> is_prime (r + 1) = Inr True
           \<and> (\<forall>j. r < j \<and> j \<le> k \<and> even (k - j) \<longrightarrow> is_prime (j + 1) = Inr False)",
         OF _ assms])
  fix loop :: "int \<Rightarrow> (error + int) option" and k :: int and y :: "error + int"
  assume IH: "\<And>k y. loop k = Some y \<Longrightarrow>
           \<forall>r. y = Inr r \<longrightarrow> r \<le> k \<and> even (k - r) \<and> is_prime (r + 1) = Inr True
           \<and> (\<forall>j. r < j \<and> j \<le> k \<and> even (k - j) \<longrightarrow> is_prime (j + 1) = Inr False)"
  assume body: "(case is_prime (k + 1) of Inl e \<Rightarrow> Some (Inl e)
      | Inr b \<Rightarrow> if \<not> b then loop (k - 2) else Some (Inr k)) = Some y"
  show "\<forall>r. y = Inr r \<longrightarrow> r \<le> k \<and> even (k - r) \<and> is_prime (r + 1) = Inr True
           \<and> (\<forall>j. r < j \<and> j \<le> k \<and> even (k - j) \<longrightarrow> is_prime (j + 1) = Inr False)"
  proof (intro allI impI)
    fix r assume y: "y = Inr r"
    show "r \<le> k \<and> even (k - r) \<and> is_prime (r + 1) = Inr True
           \<and> (\<forall>j. r < j \<and> j \<le> k \<and> even (k - j) \<longrightarrow> is_prime (j + 1) = Inr False)"
    proof (cases "is_prime (k + 1)")
      case (Inl e)
      then show ?thesis using body y by simp
    next
      case (Inr b)
      show ?thesis
      proof (cases b)
        case True
        then have "r = k" using body Inr y by simp
        then show ?thesis using Inr True by auto
      next
        case False
        then have "loop (k - 2) = Some y" using body Inr by simp
        then have rec: "r \<le> k - 2" "even (k - 2 - r)" "is_prime (r + 1) = Inr True"
          "\<And>j. r < j \<Longrightarrow> j \<le> k - 2 \<Longrightarrow> even (k - 2 - j) \<Longrightarrow> is_prime (j + 1) = Inr False"
          using IH y by blast+
        have "is_prime (j + 1) = Inr False" if j: "r < j" "j \<le> k" "even (k - j)" for j
        proof (cases "j = k")
          case True
          then show ?thesis using Inr False by simp
        next
          case ne: False
          then have "j \<noteq> k - 1" using j(3) by auto
          then have "j \<le> k - 2" using j(2) ne by simp
          moreover have "even (k - 2 - j)" using j(3) by simp
          ultimately show ?thesis using j(1) by (intro rec(4))
        qed
        moreover have "even (k - r)" using rec(2) by simp
        ultimately show ?thesis using rec(1,3) by simp
      qed
    qed
  qed
qed

lemma is_prime_three: "is_prime 3 = Inr True"
  by code_simp

text \<open>
  From \<open>k = 3\<close> on the two searches are right: \<open>next_prime(k)\<close> returns the smallest
  prime \<open>\<ge> k\<close> and \<open>previous_prime(k)\<close> the largest prime \<open>\<le> k\<close>.
\<close>

lemma next_prime_correct:
  assumes "3 \<le> k"
  shows "\<exists>p. next_prime k = Some (Inr p) \<and> prime_number p \<and> k \<le> p
           \<and> (\<forall>q. prime_number q \<and> k \<le> q \<longrightarrow> p \<le> q)"
proof -
  define k1 where "k1 = (if (k - 1) mod 2 \<noteq> 0 then k - 1 + 1 else k - 1)"
  have k1: "k - 1 \<le> k1" "k1 \<le> k" and ev: "even k1"
    unfolding k1_def using start_even_up [of k] by simp_all
  have k12: "2 \<le> k1" using k1(1) assms by simp
  obtain r where r: "next_prime_loop k1 = Some (Inr r)"
    using next_prime_loop_returns [OF ev k12] by blast
  have loop: "k1 \<le> r" "even (r - k1)" "is_prime (r + 1) = Inr True"
    "\<And>j. k1 \<le> j \<Longrightarrow> j < r \<Longrightarrow> even (j - k1) \<Longrightarrow> is_prime (j + 1) = Inr False"
    using next_prime_loop_partial [OF r] by simp_all
  have res: "next_prime k = Some (Inr (r + 1))"
    using r by (simp add: next_prime_def Let_def k1_def)
  have "is_prime (r + 1) = Inr (prime_number (r + 1))"
    using loop(1) k12 by (intro is_prime_correct) simp
  then have prime: "prime_number (r + 1)" using loop(3) by simp
  have "r + 1 \<le> q" if q: "prime_number q" "k \<le> q" for q
  proof (rule ccontr)
    assume "\<not> r + 1 \<le> q"
    then have qr: "q - 1 < r" by simp
    have "odd q" using q assms by (intro prime_number_odd) simp_all
    then have evq: "even (q - 1 - k1)" using ev by simp
    have "k1 \<le> q - 1"
    proof (cases "k1 = k")
      case True
      then have "q \<noteq> k" using \<open>odd q\<close> ev by auto
      then show ?thesis using q(2) True by simp
    next
      case False
      then show ?thesis using k1 q(2) by simp
    qed
    then have "is_prime (q - 1 + 1) = Inr False" using qr evq by (rule loop(4))
    moreover have "is_prime q = Inr (prime_number q)"
      using q(2) assms by (intro is_prime_correct) simp
    ultimately show False using q(1) by simp
  qed
  then show ?thesis using res prime loop(1) k1(1) by auto
qed

lemma previous_prime_correct:
  assumes "3 \<le> k"
  shows "\<exists>p. previous_prime k = Some (Inr p) \<and> prime_number p \<and> p \<le> k
           \<and> (\<forall>q. prime_number q \<and> q \<le> k \<longrightarrow> q \<le> p)"
proof -
  define k1 where "k1 = (if (k - 1) mod 2 \<noteq> 0 then k - 1 - 1 else k - 1)"
  have k1: "k - 2 \<le> k1" "k1 \<le> k - 1" and ev: "even k1"
    unfolding k1_def using start_even_down [of k] by simp_all
  have "1 \<le> k1" using k1(1) assms by simp
  then have k12: "2 \<le> k1" using ev by (intro even_ge_1) simp_all
  obtain r where r: "previous_prime_loop k1 = Some (Inr r)"
    using previous_prime_loop_returns [of k1] k12 by auto
  have loop: "r \<le> k1" "even (k1 - r)" "is_prime (r + 1) = Inr True"
    "\<And>j. r < j \<Longrightarrow> j \<le> k1 \<Longrightarrow> even (k1 - j) \<Longrightarrow> is_prime (j + 1) = Inr False"
    using previous_prime_loop_partial [OF r] by simp_all
  have res: "previous_prime k = Some (Inr (r + 1))"
    using r by (simp add: previous_prime_def Let_def k1_def)
  have r2: "2 \<le> r"
  proof (rule ccontr)
    assume "\<not> 2 \<le> r"
    then have "r < 2" by simp
    then have "is_prime (2 + 1) = Inr False" using k12 ev by (intro loop(4)) simp_all
    then show False using is_prime_three by simp
  qed
  have "is_prime (r + 1) = Inr (prime_number (r + 1))"
    using r2 by (intro is_prime_correct) simp
  then have prime: "prime_number (r + 1)" using loop(3) by simp
  have "q \<le> r + 1" if q: "prime_number q" "q \<le> k" for q
  proof (rule ccontr)
    assume "\<not> q \<le> r + 1"
    then have qr: "r < q - 1" by simp
    then have q3: "q \<noteq> 2" using r2 by simp
    then have "odd q" using q(1) by (intro prime_number_odd)
    then have evq: "even (k1 - (q - 1))" using ev by simp
    have "q - 1 \<le> k1"
    proof (cases "k1 = k - 2")
      case True
      then have "even k" using ev by simp
      then have "q \<noteq> k" using \<open>odd q\<close> by auto
      then show ?thesis using q(2) True by simp
    next
      case False
      then show ?thesis using k1 q(2) by simp
    qed
    with qr have "is_prime (q - 1 + 1) = Inr False" using evq by (rule loop(4))
    moreover have "2 \<le> q" using q(1) by (simp add: prime_number_def)
    then have "is_prime q = Inr (prime_number q)" by (rule is_prime_correct)
    ultimately show False using q(1) by simp
  qed
  then show ?thesis using res prime loop(1) k1(2) by auto
qed

text \<open>
  The trial-division loop ends when it is entered with \<open>n \<ge> 0\<close> and \<open>i \<ge> 2\<close>, as
  \<open>prime_facto\<close> enters it; so \<open>prime_facto\<close> returns on every \<open>n \<ge> 0\<close> (on
  \<open>n = 1\<close> it raises IndexError, the factor list being empty).
\<close>

lemma facto_loop_returns:
  assumes "0 \<le> n" and "2 \<le> i"
  shows "\<exists>n' factors'. facto_loop n i factors = Some (Inr (n', factors'))"
  using assms
proof (induction "nat n" arbitrary: n i factors rule: less_induct)
  case outer: less
  let ?r = "int (round_sqrt_from (nat n) 0)"
  have r: "round_sqrt n = Inr ?r" using outer.prems(1) by (rule round_sqrt_nonneg)
  show ?case
    using outer.prems(2)
  proof (induction "nat (?r + 2 - i)" arbitrary: i factors rule: less_induct)
    case inner: less
    have i0: "i \<noteq> 0" using inner.prems by simp
    show ?case
    proof (cases "i \<le> ?r + 1")
      case False
      then have "facto_loop n i factors = Some (Inr (n, factors))"
        using r by (subst facto_loop.simps) simp
      then show ?thesis by blast
    next
      case True
      show ?thesis
      proof (cases "n mod i = 0")
        case z: True
        have step: "facto_loop n i factors = facto_loop (n div i) i (factors @ [i])"
          using r True i0 z by (subst facto_loop.simps) simp
        have n1: "1 \<le> n"
        proof (rule ccontr)
          assume "\<not> 1 \<le> n"
          then have "n = 0" using outer.prems(1) by simp
          then have "?r = 0" by (simp add: round_sqrt_from.simps [of 0 0])
          then show False using True inner.prems by simp
        qed
        have "n div i < n" using n1 inner.prems by (intro int_div_less_self) simp_all
        moreover have "0 \<le> n div i" using outer.prems(1) inner.prems by (simp add: pos_imp_zdiv_nonneg_iff)
        ultimately have "nat (n div i) < nat n" by simp
        then show ?thesis
          using outer.hyps [of "n div i" i "factors @ [i]"] \<open>0 \<le> n div i\<close> inner.prems step
          by simp
      next
        case nz: False
        have step: "facto_loop n i factors = facto_loop n (i + 1) factors"
          using r True i0 nz by (subst facto_loop.simps) simp
        have "nat (?r + 2 - (i + 1)) < nat (?r + 2 - i)" using True by simp
        then show ?thesis
          using inner.hyps [of "i + 1" factors] inner.prems step by simp
      qed
    qed
  qed
qed

lemma prime_facto_returns:
  assumes "0 \<le> n"
  shows "\<exists>y. prime_facto n = Some y"
proof -
  obtain n' factors where "facto_loop n 2 [] = Some (Inr (n', factors))"
    using facto_loop_returns [OF assms, of 2 "[]"] by auto
  then show ?thesis
    by (cases "if n' \<noteq> 1 then factors @ [n'] else factors") (simp_all add: prime_facto_def)
qed

end
